theory Spec2Isabelle
  imports Main "HOL-Library.Word"
begin

section \<open>Values shared by the client and the receiver\<close>

type_synonym bytes = "8 word list"

text \<open>
  Go errors are values. \<open>Error msg\<close> stands for \<open>errors.New(msg)\<close> and
  \<open>fmt.Errorf(msg)\<close>; \<open>Wrapped msg e\<close> is what \<open>errors.Wrapf(e, msg, ...)\<close> of
  \<open>github.com/pkg/errors\<close> builds around a non-nil error \<open>e\<close>. Only the constant part of
  a format string is kept. \<open>JsonrpcError code message\<close> is a \<open>*jsonrpc.Error\<close>, and
  \<open>ErrSendFailByOverflow\<close> the sentinel the client compares a send error with.
  A panic of the Go runtime (a nil dereference, an index out of range) ends the process:
  a function that can panic returns an \<open>exec\<close>.
\<close>

datatype error =
    Error string
  | Wrapped string error
  | JsonrpcError int string
  | ErrSendFailByOverflow

datatype 'a exec = Panic | Done 'a

text \<open>
  \<open>errors.Wrapf\<close> of \<open>github.com/pkg/errors\<close>: "If err is nil, Wrapf returns nil."
  An \<open>error option\<close> is a Go \<open>error\<close> interface value, \<open>None\<close> being \<open>nil\<close>.
\<close>

definition Wrapf :: "error option \<Rightarrow> string \<Rightarrow> error option" where
  "Wrapf err msg = (case err of None \<Rightarrow> None | Some e \<Rightarrow> Some (Wrapped msg e))"

section \<open>The relay's message types (\<open>chain.Event\<close>, \<open>chain.Receipt\<close>, \<open>chain.Message\<close>)\<close>

record Event =
  Next :: bytes
  Sequence :: "64 word"
  Message :: bytes

record Receipt =
  Index :: "64 word"
  Height :: "64 word"
  Events :: "Event list"

record Message =
  Receipts :: "Receipt list"

section \<open>\<open>Subscribe\<close>: the callback that applies the sequence policy\<close>

text \<open>
  The closure handed to \<open>receiveLoop\<close> (receiver.go, lines 649 to 670). \<open>seq\<close> is
  \<open>opts.Seq\<close>, a \<open>uint64\<close> the closure captures and increments. The inner loop
  rebuilds \<open>receipt.Events\<close> in \<open>events\<close>; an event above the expected sequence
  returns the error at once, one below it is passed over.
\<close>

fun callback_events :: "64 word \<Rightarrow> Event list \<Rightarrow> Event list \<Rightarrow> error + (64 word \<times> Event list)" where
  "callback_events seq events [] = Inr (seq, events)"
| "callback_events seq events (event # rest) =
     (if Sequence event = seq then callback_events (seq + 1) (events @ [event]) rest
      else if Sequence event > seq then Inl (Error ''invalid event seq'')
      else callback_events seq events rest)"

fun callback_receipts :: "64 word \<Rightarrow> Receipt list \<Rightarrow> error + (64 word \<times> Receipt list)" where
  "callback_receipts seq [] = Inr (seq, [])"
| "callback_receipts seq (receipt # rest) =
     (case callback_events seq [] (Events receipt) of
        Inl e \<Rightarrow> Inl e
      | Inr (seq1, events) \<Rightarrow>
          (case callback_receipts seq1 rest of
             Inl e \<Rightarrow> Inl e
           | Inr (seq2, rs) \<Rightarrow> Inr (seq2, receipt\<lparr>Events := events\<rparr> # rs)))"

text \<open>
  The callback's result: the error, or the new \<open>opts.Seq\<close> and the message sent on
  \<open>msgCh\<close>, if one is sent (\<open>if len(receipts) > 0\<close>).
\<close>

definition callback :: "64 word \<Rightarrow> Receipt list \<Rightarrow> error + (64 word \<times> Message option)" where
  "callback seq receipts =
     (case callback_receipts seq receipts of
        Inl e \<Rightarrow> Inl e
      | Inr (seq1, rs) \<Rightarrow>
          Inr (seq1, if length rs > 0 then Some \<lparr>Receipts = rs\<rparr> else None))"

text \<open>
  The callback over the block results the pipeline delivers one after the other, up to the
  first error: the messages sent, the error that ended the stream if there is one, and
  \<open>opts.Seq\<close> at the end.
\<close>

fun deliver :: "64 word \<Rightarrow> Receipt list list \<Rightarrow> Message list \<times> error option \<times> 64 word" where
  "deliver seq [] = ([], None, seq)"
| "deliver seq (receipts # blocks) =
     (case callback seq receipts of
        Inl e \<Rightarrow> ([], Some e, seq)
      | Inr (seq1, m) \<Rightarrow>
          (case deliver seq1 blocks of
             (ms, r, seq2) \<Rightarrow> ((case m of None \<Rightarrow> ms | Some msg \<Rightarrow> msg # ms), r, seq2)))"

text \<open>The sequences of the events of a list of messages, in the order they were sent.\<close>

definition delivered_sequences :: "Message list \<Rightarrow> 64 word list" where
  "delivered_sequences ms = map Sequence (concat (map Events (concat (map Receipts ms))))"

text \<open>\<open>n\<close> consecutive \<open>uint64\<close> values from \<open>s\<close>, wrapping as \<open>opts.Seq++\<close> does.\<close>

fun seq_from :: "64 word \<Rightarrow> nat \<Rightarrow> 64 word list" where
  "seq_from s 0 = []"
| "seq_from s (Suc n) = s # seq_from (s + 1) n"

text \<open>
  The sequence policy in the specification's words, over the matched events in block order,
  then receipt order, then event-index order: an event at the expected sequence is
  included and the counter incremented, one above it is the hard error, one below it is
  dropped. The result is the events included and whether the error was met.
\<close>

fun spec_policy :: "64 word \<Rightarrow> Event list \<Rightarrow> Event list \<times> bool" where
  "spec_policy expected [] = ([], False)"
| "spec_policy expected (e # es) =
     (if Sequence e = expected then
        (case spec_policy (expected + 1) es of (included, failed) \<Rightarrow> (e # included, failed))
      else if Sequence e > expected then ([], True)
      else spec_policy expected es)"

definition delivered_events :: "Message list \<Rightarrow> Event list" where
  "delivered_events ms = concat (map Events (concat (map Receipts ms)))"

section \<open>client.go\<close>

subsection \<open>What the client is linked against\<close>

type_synonym HexInt = string
type_synonym HexBytes = string
type_synonym Address = bytes

text \<open>
  The block header of \<open>types.go\<close>, with the fields the client and the receiver use
  (\<open>NextValidatorsHash\<close>, \<open>Result\<close>, \<open>serialized\<close>).
\<close>

record BlockHeader =
  NextValidatorsHash :: bytes
  Result :: bytes
  serialized :: bytes

text \<open>
  What the receiver reads of the decoded \<open>BlockHeaderResult\<close>, \<open>TxResult\<close> and
  \<open>EventLog\<close> of \<open>types.go\<close>.
\<close>

record BlockHeaderResult =
  ReceiptHash :: bytes

record TxResult =
  EventLogsHash :: bytes

record EventLog =
  Addr :: bytes
  Indexed :: "bytes list"
  Data :: "bytes list"

text \<open>
  The node behind the JSON-RPC endpoint, as it answers at one moment: each field is what
  \<open>c.Do\<close> returns for the method of that name. \<open>GetProofForEvents\<close> takes the
  fields of \<open>ProofEventsParam\<close> (\<open>Index\<close>, \<open>BlockHash\<close>, \<open>Events\<close>).
\<close>

record node =
  GetBlockHeaderByHeight :: "int \<Rightarrow> error + bytes"
  GetVotesByHeight :: "int \<Rightarrow> error + bytes"
  GetDataByHash :: "HexBytes \<Rightarrow> error + bytes"
  GetProofForEvents :: "HexInt \<Rightarrow> HexBytes \<Rightarrow> HexInt list \<Rightarrow> error + bytes list list"

text \<open>
  Functions of packages that are not part of these sources, taken as parameters:
  \<open>crypto.SHA3Sum256\<close>, \<open>mapError\<close>, the constructors and \<open>Value\<close> methods of
  \<open>HexInt\<close> and \<open>HexBytes\<close> (a \<open>Value\<close> returns its result and its error),
  \<open>codec.RLP/BC.UnmarshalFromBytes\<close> at the types it is used at (for the header's
  result: the value left in \<open>hr\<close>, and the error), and \<open>mptProve\<close>, which is a
  function of this repository outside these sources.
\<close>

record lib =
  SHA3Sum256 :: "bytes \<Rightarrow> bytes"
  mapError :: "error \<Rightarrow> error"
  NewHexInt :: "int \<Rightarrow> HexInt"
  NewHexBytes :: "bytes \<Rightarrow> HexBytes"
  HexInt_Value :: "HexInt \<Rightarrow> int \<times> error option"
  HexBytes_Value :: "HexBytes \<Rightarrow> bytes \<times> error option"
  Unmarshal_BlockHeader :: "bytes \<Rightarrow> error + BlockHeader"
  Unmarshal_Validators :: "bytes \<Rightarrow> error + Address list"
  Unmarshal_BlockHeaderResult :: "bytes \<Rightarrow> BlockHeaderResult \<times> error option"
  Unmarshal_TxResult :: "bytes \<Rightarrow> error + TxResult"
  Unmarshal_EventLog :: "bytes \<Rightarrow> error + EventLog"
  mptProve :: "HexInt \<Rightarrow> bytes list \<Rightarrow> bytes \<Rightarrow> error + bytes"

subsection \<open>\<open>getBlockHeaderByHeight\<close> and \<open>getValidatorsByHash\<close>\<close>

definition getBlockHeaderByHeight :: "lib \<Rightarrow> node \<Rightarrow> int \<Rightarrow> error + BlockHeader" where
  "getBlockHeaderByHeight L n height =
     (case GetBlockHeaderByHeight n height of
        Inl err \<Rightarrow> Inl (mapError L err)
      | Inr b \<Rightarrow>
          (case Unmarshal_BlockHeader L b of
             Inl err \<Rightarrow> Inl err
           | Inr bh \<Rightarrow> Inr (bh\<lparr>serialized := b\<rparr>)))"

definition getValidatorsByHash :: "lib \<Rightarrow> node \<Rightarrow> bytes \<Rightarrow> error + Address list" where
  "getValidatorsByHash L n hash =
     (case GetDataByHash n (NewHexBytes L hash) of
        Inl err \<Rightarrow> Inl (Wrapped ''GetDataByHash'' err)
      | Inr data \<Rightarrow>
          if hash \<noteq> SHA3Sum256 L data then Inl (Error ''invalid data'')
          else (case Unmarshal_Validators L data of
                  Inl err \<Rightarrow> Inl (Wrapped ''Unmarshal Validators'' err)
                | Inr validators \<Rightarrow> Inr validators))"

subsection \<open>\<open>SignTransaction\<close>\<close>

text \<open>
  The fields of \<open>TransactionParam\<close> that \<open>SignTransaction\<close> writes; the others are the
  record's extension, which \<open>json.Marshal\<close> reads with them.
\<close>

record TransactionParam =
  Timestamp :: HexInt
  TxHash :: HexBytes
  Signature :: string

text \<open>
  \<open>json.Marshal\<close>, \<open>SerializeJSON\<close> (its second argument is \<open>nil\<close> at this call),
  \<open>base64.StdEncoding.EncodeToString\<close> and the wallet's \<open>Sign\<close> are parameters.
\<close>

record 'p signer =
  json_Marshal :: "'p \<Rightarrow> error + bytes"
  SerializeJSON :: "bytes \<Rightarrow> (string \<rightharpoonup> bool) \<Rightarrow> error + bytes"
  EncodeToString :: "bytes \<Rightarrow> string"
  Sign :: "bytes \<Rightarrow> error + bytes"

definition txSerializeExcludes :: "string \<rightharpoonup> bool" where
  "txSerializeExcludes = [''signature'' \<mapsto> True]"

text \<open>Go's integer division truncates towards zero.\<close>

definition go_quot :: "int \<Rightarrow> int \<Rightarrow> int" where
  "go_quot a b = sgn a * sgn b * (\<bar>a\<bar> div \<bar>b\<bar>)"

text \<open>The bytes of a string literal.\<close>

definition bytes_of :: "string \<Rightarrow> bytes" where
  "bytes_of s = map (\<lambda>c. of_nat (of_char c)) s"

text \<open>
  \<open>now\<close> is \<open>time.Now().UnixNano()\<close>. The result is the error returned and the
  parameter as the call leaves it: \<open>p\<close> is a pointer, and the fields written before an
  error stay written.
\<close>

definition SignTransaction ::
  "lib \<Rightarrow> ('a TransactionParam_scheme) signer \<Rightarrow> int \<Rightarrow> 'a TransactionParam_scheme
     \<Rightarrow> error option \<times> 'a TransactionParam_scheme" where
  "SignTransaction L w now p =
     (let p1 = p\<lparr>Timestamp := NewHexInt L (go_quot now 1000)\<rparr> in
      case json_Marshal w p1 of
        Inl err \<Rightarrow> (Some err, p1)
      | Inr js \<Rightarrow>
          (case SerializeJSON w js txSerializeExcludes of
             Inl err \<Rightarrow> (Some err, p1)
           | Inr bs \<Rightarrow>
               (let txHash = SHA3Sum256 L (bytes_of ''icx_sendTransaction.'' @ bs);
                    p2 = p1\<lparr>TxHash := NewHexBytes L txHash\<rparr>
                in case Sign w txHash of
                     Inl err \<Rightarrow> (Some err, p2)
                   | Inr sig \<Rightarrow> (None, p2\<lparr>Signature := EncodeToString w sig\<rparr>))))"

subsection \<open>\<open>SendTransactionAndGetResult\<close>\<close>

text \<open>
  \<open>SendTransaction\<close> and \<open>GetTransactionResult\<close> return a pointer and an error:
  \<open>nil\<close> and the error when \<open>c.Do\<close> fails, the result and \<open>nil\<close> otherwise.
\<close>

definition SendTransaction :: "error + HexBytes \<Rightarrow> HexBytes option \<times> error option" where
  "SendTransaction do = (case do of Inl err \<Rightarrow> (None, Some err) | Inr result \<Rightarrow> (Some result, None))"

definition GetTransactionResult :: "error + 'r \<Rightarrow> 'r option \<times> error option" where
  "GetTransactionResult do = (case do of Inl err \<Rightarrow> (None, Some err) | Inr tr \<Rightarrow> (Some tr, None))"

text \<open>
  The error codes of \<open>types.go\<close> and \<open>strconv.ParseInt(s, 0, 32)\<close>, as parameters.
\<close>

record rpc_consts =
  JsonrpcErrorCodeSystem :: int
  JsonrpcErrorCodePending :: int
  JsonrpcErrorCodeExecuting :: int
  ParseInt :: "string \<Rightarrow> int \<times> error option"

text \<open>
  \<open>txLoop\<close> over the answers of the node to the successive \<open>icx_sendTransaction\<close> calls.
  \<open>None\<close>: the answers given ran out while the loop was still resubmitting. \<open>Inl h\<close>:
  the loop was left by \<open>break txLoop\<close> with \<open>thp.Hash = h\<close>; \<open>Inr err\<close>: the function
  returned \<open>(&thp.Hash, nil, err)\<close>, \<open>thp.Hash\<close> being the empty string still.
  \<open>re.Message[1:5]\<close> panics on a message shorter than five bytes, and \<open>*txh\<close> on the
  \<open>nil\<close> that \<open>SendTransaction\<close> returns with an error.
\<close>

fun txLoop :: "rpc_consts \<Rightarrow> (error + HexBytes) list \<Rightarrow> (HexBytes + error) exec option" where
  "txLoop C [] = None"
| "txLoop C (do # rest) =
     (case SendTransaction do of
        (txh, None) \<Rightarrow> (case txh of None \<Rightarrow> Some Panic | Some h \<Rightarrow> Some (Done (Inl h)))
      | (txh, Some err) \<Rightarrow>
          if err = ErrSendFailByOverflow then txLoop C rest
          else (case err of
                  JsonrpcError code message \<Rightarrow>
                    if code = JsonrpcErrorCodeSystem C then
                      (if length message < 5 then Some Panic
                       else (case ParseInt C (take 4 (drop 1 message)) of
                               (subEc, None) \<Rightarrow>
                                 if subEc = 2000 then
                                   (case txh of None \<Rightarrow> Some Panic | Some h \<Rightarrow> Some (Done (Inl h)))
                                 else Some (Done (Inr err))
                             | (subEc, Some _) \<Rightarrow> Some (Done (Inr err))))
                    else Some (Done (Inr err))
                | _ \<Rightarrow> Some (Done (Inr err))))"

text \<open>\<open>txrLoop\<close> over the answers to the successive \<open>icx_getTransactionResult\<close> calls.\<close>

fun txrLoop :: "rpc_consts \<Rightarrow> (error + 'r) list \<Rightarrow> ('r option \<times> error option) option" where
  "txrLoop C [] = None"
| "txrLoop C (do # rest) =
     (case GetTransactionResult do of
        (txr, Some (JsonrpcError code message)) \<Rightarrow>
          if code = JsonrpcErrorCodePending C \<or> code = JsonrpcErrorCodeExecuting C
          then txrLoop C rest
          else Some (txr, Some (JsonrpcError code message))
      | (txr, err) \<Rightarrow> Some (txr, err))"

definition SendTransactionAndGetResult ::
  "rpc_consts \<Rightarrow> (error + HexBytes) list \<Rightarrow> (error + 'r) list
     \<Rightarrow> (HexBytes \<times> 'r option \<times> error option) exec option" where
  "SendTransactionAndGetResult C sends polls =
     (case txLoop C sends of
        None \<Rightarrow> None
      | Some Panic \<Rightarrow> Some Panic
      | Some (Done (Inr err)) \<Rightarrow> Some (Done ([], None, Some err))
      | Some (Done (Inl h)) \<Rightarrow>
          (case txrLoop C polls of
             None \<Rightarrow> None
           | Some (txr, err) \<Rightarrow> Some (Done (h, txr, err))))"

section \<open>receiver.go: the verifier\<close>

text \<open>
  The verifier's fields are those of the literal in \<open>newVerifer\<close>. The cache
  \<open>validators\<close> is keyed by \<open>hash.String()\<close>, the hash in hexadecimal, which stands
  for the hash itself here.
\<close>

record Verifier =
  "next" :: int
  nextValidatorsHash :: bytes
  validators :: "bytes \<rightharpoonup> Address list"

record VerifierOptions =
  BlockHeight :: "64 word"
  ValidatorsHash :: bytes

text \<open>
  \<open>Verify\<close> and \<open>Update\<close> are methods of \<open>verifier.go\<close>, which is not among these
  sources: they are parameters. \<open>Verify\<close> returns \<open>(ok, err)\<close>; \<open>Update\<close> returns its
  error and the verifier as it leaves it.
\<close>

record vops =
  Verify :: "Verifier \<Rightarrow> BlockHeader option \<Rightarrow> bytes \<Rightarrow> bool \<times> error option"
  Update :: "Verifier \<Rightarrow> BlockHeader option \<Rightarrow> Address list \<Rightarrow> error option \<times> Verifier"

text \<open>
  Modelled from the spec: \<open>Next()\<close> of \<open>verifier.go\<close> is missing; it reads the verifier
  state's \<open>next\<close>, the height of the next header to verify.
\<close>

definition Next_height :: "Verifier \<Rightarrow> int" where
  "Next_height vr = next vr"

text \<open>
  Modelled from the spec: \<open>Validators(hash)\<close> of \<open>verifier.go\<close> is missing; the cache
  maps \<open>validatorsHash\<close> to validators, and a hash that is not cached has none.
\<close>

definition Validators :: "Verifier \<Rightarrow> bytes \<Rightarrow> Address list" where
  "Validators vr hash = (case validators vr hash of None \<Rightarrow> [] | Some vs \<Rightarrow> vs)"

text \<open>
  Modelled from the spec: \<open>Update\<close> of \<open>verifier.go\<close> is missing. "Set
  \<open>verifier.next = header.height + 1\<close>; set \<open>nextValidatorsHash = header.nextValidatorsHash\<close>;
  if \<open>maybeNextValidators\<close> is non-empty, insert into the cache under that hash."
  \<open>height\<close> is the header's height.
\<close>

definition Update_spec :: "Verifier \<Rightarrow> int \<Rightarrow> BlockHeader \<Rightarrow> Address list \<Rightarrow> Verifier" where
  "Update_spec vr height header nextValidators =
     vr\<lparr>next := height + 1,
        nextValidatorsHash := NextValidatorsHash header,
        validators :=
          (if nextValidators \<noteq> []
           then (validators vr)(NextValidatorsHash header \<mapsto> nextValidators)
           else validators vr)\<rparr>"

subsection \<open>\<open>newVerifer\<close>\<close>

definition newVerifer :: "lib \<Rightarrow> node \<Rightarrow> vops \<Rightarrow> VerifierOptions \<Rightarrow> error + Verifier" where
  "newVerifer L n V opts =
     (case getValidatorsByHash L n (ValidatorsHash opts) of
        Inl err \<Rightarrow> Inl err
      | Inr vs \<Rightarrow>
          (let vr = \<lparr>next = sint (BlockHeight opts),
                     nextValidatorsHash = ValidatorsHash opts,
                     validators = [ValidatorsHash opts \<mapsto> vs]\<rparr>
           in case getBlockHeaderByHeight L n (next vr) of
                Inl err \<Rightarrow> Inl err
              | Inr header \<Rightarrow>
                  (case GetVotesByHeight n (next vr) of
                     Inl err \<Rightarrow> Inl err
                   | Inr votes \<Rightarrow>
                       (case Verify V vr (Some header) votes of
                          (ok, err) \<Rightarrow>
                            (case (if \<not> ok then Some (Error ''verification failed'') else err) of
                               Some e \<Rightarrow> Inl e
                             | None \<Rightarrow> Inr vr)))))"

subsection \<open>\<open>syncVerifier\<close>\<close>

text \<open>The JSON-RPC calls \<open>syncVerifier\<close> can issue.\<close>

datatype rpc =
    Call_GetBlockHeaderByHeight int
  | Call_GetVotesByHeight int
  | Call_GetDataByHash bytes

text \<open>The local type \<open>res\<close> of \<open>syncVerifier\<close>.\<close>

record sync_res =
  Height :: int
  Header :: "BlockHeader option"
  Votes :: bytes
  NextValidators :: "Address list"

text \<open>
  The goroutine started for one request (lines 211 to 238): \<open>q.err\<close> and \<open>q.res\<close> as it
  leaves them, and the calls it made.
\<close>

definition sync_task :: "lib \<Rightarrow> node \<Rightarrow> Verifier \<Rightarrow> int \<Rightarrow> (error option \<times> sync_res) \<times> rpc list" where
  "sync_task L n vr height =
     (let r0 = \<lparr>Height = height, Header = None, Votes = [], NextValidators = []\<rparr>;
          c1 = [Call_GetBlockHeaderByHeight height]
      in case getBlockHeaderByHeight L n height of
           Inl err \<Rightarrow> ((Some (Wrapped ''syncVerifier: getBlockHeader'' err), r0), c1)
         | Inr header \<Rightarrow>
             (let r1 = r0\<lparr>Header := Some header\<rparr>;
                  c2 = c1 @ [Call_GetVotesByHeight height]
              in case GetVotesByHeight n height of
                   Inl err \<Rightarrow> ((Some (Wrapped ''syncVerifier: GetVotesByHeight'' err), r1), c2)
                 | Inr votes \<Rightarrow>
                     (let r2 = r1\<lparr>Votes := votes\<rparr> in
                      if length (Validators vr (NextValidatorsHash header)) = 0 then
                        (case getValidatorsByHash L n (NextValidatorsHash header) of
                           Inl err \<Rightarrow>
                             ((Some (Wrapped ''syncVerifier: getValidatorsByHash'' err), r2),
                              c2 @ [Call_GetDataByHash (NextValidatorsHash header)])
                         | Inr vs \<Rightarrow>
                             ((None, r2\<lparr>NextValidators := vs\<rparr>),
                              c2 @ [Call_GetDataByHash (NextValidatorsHash header)]))
                      else ((None, r2), c2))))"

text \<open>
  The loop over the sorted results (lines 253 to 267). The error comes with the verifier
  as the updates before it left it.
\<close>

fun sync_apply :: "vops \<Rightarrow> Verifier \<Rightarrow> sync_res list \<Rightarrow> error option \<times> Verifier" where
  "sync_apply V vr [] = (None, vr)"
| "sync_apply V vr (r # rs) =
     (if Next_height vr = Height r then
        (case Verify V vr (Header r) (Votes r) of
           (ok, Some err) \<Rightarrow> (Some (Wrapped ''syncVerifier: Verify'' err), vr)
         | (ok, None) \<Rightarrow>
             if \<not> ok then (Some (Error ''syncVerifier: invalid header''), vr)
             else (case Update V vr (Header r) (NextValidators r) of
                     (Some err, vr1) \<Rightarrow> (Some (Wrapped ''syncVerifier: Update'' err), vr1)
                   | (None, vr1) \<Rightarrow> sync_apply V vr1 rs))
      else sync_apply V vr rs)"

text \<open>
  One batch: \<open>SyncConcurrency\<close> requests from \<open>vr.Next()\<close> on, each with \<open>retry\<close> zero,
  so that a request that fails once leaves \<open>nil\<close>; the \<open>nil\<close>s are filtered out and the
  rest is sorted by height. The requests finish in any order; their heights differ, so
  the sorted list is the same for every order.
\<close>

definition sync_batch :: "lib \<Rightarrow> node \<Rightarrow> Verifier \<Rightarrow> nat \<Rightarrow> sync_res list \<times> rpc list" where
  "sync_batch L n vr conc =
     (let done = map (\<lambda>k. sync_task L n vr (Next_height vr + int k)) [0..<conc]
      in (sort_key Height (map (snd \<circ> fst) (filter (\<lambda>d. fst (fst d) = None) done)),
          concat (map snd done)))"

text \<open>
  The loop \<open>for vr.Next() < height\<close>. It can run for ever, so it runs on the list of the
  node's answers, one element for each batch: \<open>None\<close> when the list is used up before the
  loop ends.
\<close>

fun sync_loop ::
  "lib \<Rightarrow> vops \<Rightarrow> nat \<Rightarrow> int \<Rightarrow> node list \<Rightarrow> Verifier \<Rightarrow> rpc list
     \<Rightarrow> (error option \<times> Verifier \<times> rpc list) option" where
  "sync_loop L V conc height [] vr calls =
     (if Next_height vr < height then None else Some (None, vr, calls))"
| "sync_loop L V conc height (n # ns) vr calls =
     (if Next_height vr < height then
        (case sync_batch L n vr conc of
           (sres, c) \<Rightarrow>
             (case sync_apply V vr sres of
                (Some err, vr1) \<Rightarrow> Some (Some err, vr1, calls @ c)
              | (None, vr1) \<Rightarrow> sync_loop L V conc height ns vr1 (calls @ c)))
      else Some (None, vr, calls))"

text \<open>
  The result of \<open>syncVerifier\<close>: the error returned, the verifier as the call leaves it,
  and the JSON-RPC calls issued.
\<close>

definition syncVerifier ::
  "lib \<Rightarrow> vops \<Rightarrow> nat \<Rightarrow> node list \<Rightarrow> Verifier \<Rightarrow> int
     \<Rightarrow> (error option \<times> Verifier \<times> rpc list) option" where
  "syncVerifier L V conc ns vr height =
     (if height = Next_height vr then Some (None, vr, [])
      else if Next_height vr > height then Some (Some (Error ''invalid target height''), vr, [])
      else sync_loop L V conc height ns vr [])"

section \<open>receiver.go: the block-fetch task\<close>

definition EventIndexSignature :: nat where "EventIndexSignature = 0"
definition EventIndexNext :: nat where "EventIndexNext = 1"
definition EventIndexSequence :: nat where "EventIndexSequence = 2"
definition RPCCallRetry :: nat where "RPCCallRetry = 5"
definition MonitorBlockMaxConcurrency :: nat where "MonitorBlockMaxConcurrency = 300"

record eventLogRawFilter =
  addr :: bytes
  signature :: bytes
  "next" :: bytes
  seq :: "64 word"

record BlockNotification =
  Hash :: HexBytes
  Height :: HexInt
  Indexes :: "HexInt list list"
  Events :: "HexInt list list list"

text \<open>
  The local types \<open>req\<close> and \<open>res\<close> of \<open>receiveLoop\<close>. The fields \<open>err\<close> and
  \<open>res\<close> of a request are what a task returns.
\<close>

record req =
  height :: int
  hash :: HexBytes
  indexes :: "HexInt list list"
  events :: "HexInt list list list"
  retry :: nat

record res =
  Height :: int
  Hash :: bytes
  Header :: "BlockHeader option"
  Votes :: bytes
  NextValidators :: "Address list"
  Receipts :: "Receipt list"

text \<open>
  \<open>seqGot.SetBytes(b)\<close> followed by \<open>seqGot.Uint64()\<close>: the big-endian value of the
  bytes, of which \<open>Uint64\<close> keeps the low 64 bits.
\<close>

definition SetBytes_Uint64 :: "bytes \<Rightarrow> 64 word" where
  "SetBytes_Uint64 b = foldl (\<lambda>acc x. acc * 256 + ucast x) 0 b"

text \<open>
  The loop over \<open>p.Events\<close> (lines 545 to 593), on the events left and the proofs left
  (\<open>proofs[j+1]\<close> onwards). An event log with fewer than two indexed values makes the
  comparison with the filter, or the logging of the mismatch, read out of range; a log
  that matches needs \<open>Indexed[2]\<close> and \<open>Data[0]\<close>.
\<close>

fun prove_events ::
  "lib \<Rightarrow> eventLogRawFilter \<Rightarrow> bytes \<Rightarrow> HexInt list \<Rightarrow> bytes list list \<Rightarrow> Event list
     \<Rightarrow> (error + Event list) exec" where
  "prove_events L f logsHash [] proofs evs = Done (Inr evs)"
| "prove_events L f logsHash (e # es) [] evs = Panic"
| "prove_events L f logsHash (e # es) (proof # proofs) evs =
     (case mptProve L e proof logsHash of
        Inl err \<Rightarrow> Done (Inl (Wrapped ''event.MPTProve'' err))
      | Inr serializedEventLog \<Rightarrow>
          (case Unmarshal_EventLog L serializedEventLog of
             Inl err \<Rightarrow> Done (Inl (Wrapped ''event.UnmarshalFromBytes'' err))
           | Inr el \<Rightarrow>
               if length (Indexed el) < 2 then Panic
               else if Addr el = addr f
                     \<and> Indexed el ! EventIndexSignature = signature f
                     \<and> Indexed el ! EventIndexNext = eventLogRawFilter.next f
               then
                 (if length (Indexed el) < 3 \<or> Data el = [] then Panic
                  else prove_events L f logsHash es proofs
                         (evs @ [\<lparr>Event.Next = Indexed el ! EventIndexNext,
                                  Event.Sequence = SetBytes_Uint64 (Indexed el ! EventIndexSequence),
                                  Event.Message = Data el ! 0\<rparr>]))
               else Done (Inl (Error ''invalid event''))))"

text \<open>
  The loop over \<open>q.indexes[0]\<close> (lines 508 to 607): \<open>q.err\<close> and \<open>q.res.Receipts\<close>
  as the task leaves them. \<open>q_err\<close> is \<open>q.err\<close> as it is when the loop is entered; the
  loop assigns it only to return. \<open>q.events[0][i]\<close> panics when the notification has
  fewer event lists than receipt indexes.
\<close>

fun fetch_receipts ::
  "lib \<Rightarrow> node \<Rightarrow> eventLogRawFilter \<Rightarrow> error option \<Rightarrow> int \<Rightarrow> HexBytes \<Rightarrow> bytes
     \<Rightarrow> HexInt list list \<Rightarrow> nat \<Rightarrow> HexInt list \<Rightarrow> Receipt list
     \<Rightarrow> (error option \<times> Receipt list) exec" where
  "fetch_receipts L n f q_err h blockHash receiptHash events0 i [] receipts = Done (q_err, receipts)"
| "fetch_receipts L n f q_err h blockHash receiptHash events0 i (index # rest) receipts =
     (if length events0 \<le> i then Panic
      else
        (case GetProofForEvents n index blockHash (events0 ! i) of
           Inl err \<Rightarrow> Done (Some (Wrapped ''GetProofForEvents'' err), receipts)
         | Inr proofs \<Rightarrow>
             if length proofs \<noteq> 1 + length (events0 ! i)
             then Done (Wrapf q_err ''Proof does not include all events'', receipts)
             else
               (case mptProve L index (proofs ! 0) receiptHash of
                  Inl err \<Rightarrow> Done (Some (Wrapped ''MPTProve Receipt'' err), receipts)
                | Inr serializedReceipt \<Rightarrow>
                    (case Unmarshal_TxResult L serializedReceipt of
                       Inl err \<Rightarrow> Done (Some (Wrapped ''Unmarshal Receipt'' err), receipts)
                     | Inr result \<Rightarrow>
                         (case prove_events L f (EventLogsHash result) (events0 ! i) (tl proofs) [] of
                            Panic \<Rightarrow> Panic
                          | Done (Inl err) \<Rightarrow> Done (Some err, receipts)
                          | Done (Inr evs) \<Rightarrow>
                              if length evs > 0 then
                                (if length evs = length (events0 ! i) then
                                   fetch_receipts L n f q_err h blockHash receiptHash events0 (Suc i) rest
                                     (receipts @
                                       [\<lparr>Receipt.Index = word_of_int (fst (HexInt_Value L index)),
                                         Receipt.Height = word_of_int h,
                                         Receipt.Events = evs\<rparr>])
                                 else Done (Some (Error ''failed to verify all events for the receipt''),
                                            receipts))
                              else fetch_receipts L n f q_err h blockHash receiptHash events0 (Suc i) rest
                                     receipts)))))"

text \<open>The votes and the next validators, fetched only when a verifier exists (lines 485 to 499).\<close>

definition fetch_votes ::
  "lib \<Rightarrow> node \<Rightarrow> Verifier option \<Rightarrow> BlockHeader \<Rightarrow> res \<Rightarrow> error option \<times> res" where
  "fetch_votes L n vr header r =
     (case vr of
        None \<Rightarrow> (None, r)
      | Some v \<Rightarrow>
          (case GetVotesByHeight n (res.Height r) of
             Inl err \<Rightarrow> (Some (Wrapped ''GetVotesByHeight'' err), r)
           | Inr votes \<Rightarrow>
               if length (Validators v (NextValidatorsHash header)) = 0 then
                 (case getValidatorsByHash L n (NextValidatorsHash header) of
                    Inl err \<Rightarrow> (Some (Wrapped ''getValidatorsByHash'' err), r\<lparr>res.Votes := votes\<rparr>)
                  | Inr vs \<Rightarrow> (None, r\<lparr>res.Votes := votes, res.NextValidators := vs\<rparr>))
               else (None, r\<lparr>res.Votes := votes\<rparr>)))"

text \<open>
  The goroutine started for one request (lines 463 to 609): \<open>q.err\<close> and \<open>q.res\<close> as it
  leaves them. The error of unmarshalling the header's result is held in a local \<open>err\<close>
  and the test that follows reads \<open>q.err\<close>.
\<close>

definition fetch_task ::
  "lib \<Rightarrow> node \<Rightarrow> Verifier option \<Rightarrow> eventLogRawFilter \<Rightarrow> req \<Rightarrow> (error option \<times> res) exec" where
  "fetch_task L n vr f q =
     (let r0 = \<lparr>res.Height = height q, res.Hash = [], res.Header = None, res.Votes = [],
                res.NextValidators = [], res.Receipts = []\<rparr>
      in case HexBytes_Value L (hash q) of
           (hv, Some err) \<Rightarrow> Done (Some (Wrapped ''invalid hash'' err), r0\<lparr>res.Hash := hv\<rparr>)
         | (hv, None) \<Rightarrow>
             (case getBlockHeaderByHeight L n (height q) of
                Inl err \<Rightarrow> Done (Some (Wrapped ''getBlockHeader'' err), r0\<lparr>res.Hash := hv\<rparr>)
              | Inr header \<Rightarrow>
                  (case fetch_votes L n vr header (r0\<lparr>res.Hash := hv, res.Header := Some header\<rparr>) of
                     (Some err, r2) \<Rightarrow> Done (Some err, r2)
                   | (None, r2) \<Rightarrow>
                       if length (indexes q) > 0 \<and> length (events q) > 0 then
                         (case Unmarshal_BlockHeaderResult L (Result header) of
                            (hr, err) \<Rightarrow>
                              (case fetch_receipts L n f None (height q) (hash q) (ReceiptHash hr)
                                      (events q ! 0) 0 (indexes q ! 0) [] of
                                 Panic \<Rightarrow> Panic
                               | Done (q_err, receipts) \<Rightarrow> Done (q_err, r2\<lparr>res.Receipts := receipts\<rparr>)))
                       else Done (None, r2))))"

section \<open>receiver.go: collecting a batch\<close>

text \<open>
  What the collector (lines 441 to 461) makes of one request: \<open>task k\<close> is what the
  \<open>k\<close>-th run of its goroutine leaves. A run that leaves an error is started again while
  \<open>q.retry\<close> is positive, and leaves \<open>nil\<close> in \<open>brs\<close> otherwise; a run that leaves no
  error leaves \<open>q.res\<close> there.
\<close>

fun run_req :: "(nat \<Rightarrow> (error option \<times> res) exec) \<Rightarrow> nat \<Rightarrow> nat \<Rightarrow> res option exec" where
  "run_req task 0 k =
     (case task k of
        Panic \<Rightarrow> Panic
      | Done (Some err, r) \<Rightarrow> Done None
      | Done (None, r) \<Rightarrow> Done (Some r))"
| "run_req task (Suc m) k =
     (case task k of
        Panic \<Rightarrow> Panic
      | Done (Some err, r) \<Rightarrow> run_req task m (Suc k)
      | Done (None, r) \<Rightarrow> Done (Some r))"

text \<open>
  \<open>brs\<close> when the batch is complete. The requests finish in any order; \<open>brs\<close> is sorted
  before it is used, and the heights of a batch differ.
\<close>

fun collect :: "(req \<Rightarrow> nat \<Rightarrow> (error option \<times> res) exec) \<Rightarrow> req list \<Rightarrow> res option list exec" where
  "collect task [] = Done []"
| "collect task (q # qs) =
     (case run_req (task q) (retry q) 0 of
        Panic \<Rightarrow> Panic
      | Done r \<Rightarrow> (case collect task qs of Panic \<Rightarrow> Panic | Done rs \<Rightarrow> Done (r # rs)))"

text \<open>
  Lines 612 to 629: the \<open>nil\<close>s are filtered out, the results sorted by height
  (\<open>sort.SliceStable\<close>), and the result at position \<open>i\<close> is sent on \<open>brch\<close> when its
  height is \<open>next + i\<close>. The value is what is sent, in order.
\<close>

definition forward :: "int \<Rightarrow> res option list \<Rightarrow> res list" where
  "forward nxt brs =
     map snd
       (filter (\<lambda>(i, d). res.Height d = nxt + int i)
          (enumerate 0 (sort_key res.Height (map the (filter (\<lambda>v. v \<noteq> None) brs)))))"

text \<open>
  Lines 416 to 438: the requests of a batch, from the notification \<open>bn\<close> just received
  and those waiting in \<open>bnch\<close>, while \<open>qch\<close> has room. \<open>i\<close> is the length of \<open>qch\<close>.
\<close>

datatype fill_result =
    FillPanic
  | FillReconnect "BlockNotification list"
  | FillDone "req list" "BlockNotification list"

fun fill ::
  "lib \<Rightarrow> int \<Rightarrow> nat \<Rightarrow> BlockNotification \<Rightarrow> BlockNotification list \<Rightarrow> req list \<Rightarrow> fill_result" where
  "fill L nxt cap bn [] qch =
     (case HexInt_Value L (BlockNotification.Height bn) of
        (h, Some err) \<Rightarrow> FillPanic
      | (h, None) \<Rightarrow>
          if h \<noteq> nxt + int (length qch) then FillReconnect []
          else FillDone (qch @ [\<lparr>height = h, hash = BlockNotification.Hash bn,
                                 indexes = Indexes bn, events = BlockNotification.Events bn,
                                 retry = RPCCallRetry\<rparr>]) [])"
| "fill L nxt cap bn (bn1 # bnch) qch =
     (case HexInt_Value L (BlockNotification.Height bn) of
        (h, Some err) \<Rightarrow> FillPanic
      | (h, None) \<Rightarrow>
          if h \<noteq> nxt + int (length qch) then FillReconnect (bn1 # bnch)
          else if length qch + 1 < cap
          then fill L nxt cap bn1 bnch
                 (qch @ [\<lparr>height = h, hash = BlockNotification.Hash bn,
                          indexes = Indexes bn, events = BlockNotification.Events bn,
                          retry = RPCCallRetry\<rparr>])
          else FillDone (qch @ [\<lparr>height = h, hash = BlockNotification.Hash bn,
                                 indexes = Indexes bn, events = BlockNotification.Events bn,
                                 retry = RPCCallRetry\<rparr>]) (bn1 # bnch))"

section \<open>receiver.go: \<open>receiveLoop\<close> and \<open>Subscribe\<close>\<close>

record ReceiverOptions =
  SyncConcurrency :: nat
  Verifier :: "VerifierOptions option"

record receiver =
  opts :: ReceiverOptions
  logFilter :: eventLogRawFilter

text \<open>
  The variables of \<open>receiveLoop\<close> that outlive one pass of its loop: \<open>next\<close>, \<open>vr\<close>,
  what the channels \<open>brch\<close>, \<open>bnch\<close> and \<open>rech\<close> hold (\<open>rech\<close> has room for one
  signal), and whether \<open>ctx\<close> is cancelled; with them the variable \<open>opts.Seq\<close> of the
  callback that \<open>Subscribe\<close> passes, and the messages that callback has sent on
  \<open>msgCh\<close>. Nothing is ever sent on \<open>ech\<close>.
\<close>

record loop_state =
  "next" :: int
  vr :: "Verifier option"
  brch :: "res list"
  bnch :: "BlockNotification list"
  rech :: bool
  ctx_done :: bool
  Seq :: "64 word"
  msgCh :: "Message list"

text \<open>
  \<open>reconnect()\<close> (lines 304 to 315) when the orchestrator calls it: the signal is left in
  \<open>rech\<close> unless one is there, and both channels are emptied.
\<close>

definition reconnect :: "loop_state \<Rightarrow> loop_state" where
  "reconnect s = s\<lparr>rech := True, brch := [], bnch := []\<rparr>"

text \<open>
  Where the orchestrator is: at the \<open>select\<close> of line 325, or in the loop of line 373
  with a block result \<open>br\<close> in hand.
\<close>

datatype pc = AtSelect | InDrain res

text \<open>
  \<open>Returned err s\<close>: \<open>receiveLoop\<close> has returned \<open>err\<close>. \<open>Crashed s\<close>: a goroutine has
  panicked. \<open>Unfinished s\<close>: \<open>syncVerifier\<close> had not returned when the answers given
  for it ran out. Each keeps the variables as they were left.
\<close>

datatype config =
    Running pc loop_state
  | Returned "error option" loop_state
  | Crashed loop_state
  | Unfinished loop_state

text \<open>
  The end of the body of the loop of line 373, from the call of the callback on: the
  callback's error returns; otherwise \<open>br\<close> becomes the next result waiting in \<open>brch\<close>,
  or \<open>nil\<close>, and \<open>next++\<close> runs.
\<close>

definition deliver_block :: "loop_state \<Rightarrow> res \<Rightarrow> config" where
  "deliver_block s br =
     (case callback (Seq s) (res.Receipts br) of
        Inl err \<Rightarrow> Returned (Some (Wrapped ''receiveLoop: callback'' err)) s
      | Inr (seq1, m) \<Rightarrow>
          (let s1 = s\<lparr>Seq := seq1,
                       msgCh := msgCh s @ (case m of None \<Rightarrow> [] | Some msg \<Rightarrow> [msg])\<rparr>
           in case brch s1 of
                [] \<Rightarrow> Running AtSelect (s1\<lparr>loop_state.next := loop_state.next s1 + 1\<rparr>)
              | b # rest \<Rightarrow>
                  Running (InDrain b) (s1\<lparr>brch := rest, loop_state.next := loop_state.next s1 + 1\<rparr>)))"

text \<open>
  One pass of the body of the loop of line 373 (lines 374 to 397). A failed verification
  calls \<open>reconnect()\<close> and leaves the loop by \<open>break\<close>, which skips \<open>next++\<close>.
\<close>

definition drain_body :: "vops \<Rightarrow> loop_state \<Rightarrow> res \<Rightarrow> config" where
  "drain_body V s br =
     (case vr s of
        None \<Rightarrow> deliver_block s br
      | Some v \<Rightarrow>
          (case Verify V v (res.Header br) (res.Votes br) of
             (ok, err) \<Rightarrow>
               if \<not> ok \<or> err \<noteq> None then Running AtSelect (reconnect s)
               else
                 (case Update V v (res.Header br) (res.NextValidators br) of
                    (Some e, v1) \<Rightarrow>
                      Returned (Some (Wrapped ''receiveLoop: update verifier'' e)) (s\<lparr>vr := Some v1\<rparr>)
                  | (None, v1) \<Rightarrow> deliver_block (s\<lparr>vr := Some v1\<rparr>) br)))"

text \<open>
  The case \<open>bn := <-bnch\<close> (lines 402 to 630), \<open>bn\<close> being the first notification in
  \<open>bnch\<close>: the batch is filled, fetched and forwarded. \<open>nodes k\<close> is the node as it
  answers the \<open>k\<close>-th run of a request's task.
\<close>

definition on_notification :: "lib \<Rightarrow> receiver \<Rightarrow> (nat \<Rightarrow> node) \<Rightarrow> loop_state \<Rightarrow> config" where
  "on_notification L r nodes s =
     (case bnch s of
        [] \<Rightarrow> Running AtSelect s
      | bn # waiting \<Rightarrow>
          (case fill L (loop_state.next s) (SyncConcurrency (opts r)) bn waiting [] of
             FillPanic \<Rightarrow> Crashed s
           | FillReconnect left \<Rightarrow> Running AtSelect (reconnect (s\<lparr>bnch := left\<rparr>))
           | FillDone qch left \<Rightarrow>
               (case collect (\<lambda>q k. fetch_task L (nodes k) (vr s) (logFilter r) q) qch of
                  Panic \<Rightarrow> Crashed s
                | Done brs \<Rightarrow>
                    Running AtSelect
                      (s\<lparr>bnch := left, brch := brch s @ forward (loop_state.next s) brs\<rparr>))))"

text \<open>
  The case \<open><-rech\<close> (lines 332 to 370): the subscription is started again from \<open>next\<close>,
  and the verifier, if there is one, is synchronised to \<open>next\<close>. \<open>ns\<close> holds the node's
  answers for the batches of \<open>syncVerifier\<close>.
\<close>

definition on_reconnect :: "lib \<Rightarrow> vops \<Rightarrow> receiver \<Rightarrow> node list \<Rightarrow> loop_state \<Rightarrow> config" where
  "on_reconnect L V r ns s =
     (case vr s of
        None \<Rightarrow> Running AtSelect (s\<lparr>rech := False\<rparr>)
      | Some v \<Rightarrow>
          (case syncVerifier L V (SyncConcurrency (opts r)) ns v (loop_state.next s) of
             None \<Rightarrow> Unfinished s
           | Some (Some err, v1, calls) \<Rightarrow>
               Returned (Some (Wrapped ''sync verifier'' err)) (s\<lparr>rech := False, vr := Some v1\<rparr>)
           | Some (None, v1, calls) \<Rightarrow> Running AtSelect (s\<lparr>rech := False, vr := Some v1\<rparr>)))"

text \<open>
  What can happen next. The first five are the orchestrator's: a case of the \<open>select\<close>
  of line 325 that can proceed (the \<open>default\<close> case only when no other can), or a pass
  of the loop of line 373. \<open>Cancel\<close> is the caller cancelling \<open>ctx\<close>. The last four are
  the subscription goroutine's (lines 337 to 363): a notification sent on \<open>bnch\<close>, and,
  after \<open>MonitorBlock\<close> has returned an error, the steps of its call of \<open>reconnect()\<close>,
  which sends the signal and then receives from \<open>brch\<close> and \<open>bnch\<close> while they hold
  something.
\<close>

datatype action =
    SelCtxDone
  | SelRech "node list"
  | SelBrch
  | SelDefault "nat \<Rightarrow> node"
  | DrainBody
  | Cancel
  | MonitorNotify BlockNotification
  | MonitorReconnectSignal
  | MonitorTakeBrch
  | MonitorTakeBnch

text \<open>An action that cannot proceed in a configuration leaves it as it is.\<close>

fun step :: "lib \<Rightarrow> vops \<Rightarrow> receiver \<Rightarrow> action \<Rightarrow> config \<Rightarrow> config" where
  "step L V r SelCtxDone (Running AtSelect s) =
     (if ctx_done s then Returned None s else Running AtSelect s)"
| "step L V r (SelRech ns) (Running AtSelect s) =
     (if rech s then on_reconnect L V r ns s else Running AtSelect s)"
| "step L V r SelBrch (Running AtSelect s) =
     (case brch s of
        [] \<Rightarrow> Running AtSelect s
      | br # rest \<Rightarrow> Running (InDrain br) (s\<lparr>brch := rest\<rparr>))"
| "step L V r (SelDefault nodes) (Running AtSelect s) =
     (if ctx_done s \<or> rech s \<or> brch s \<noteq> [] then Running AtSelect s
      else on_notification L r nodes s)"
| "step L V r DrainBody (Running (InDrain br) s) = drain_body V s br"
| "step L V r Cancel (Running p s) = Running p (s\<lparr>ctx_done := True\<rparr>)"
| "step L V r (MonitorNotify bn) (Running p s) =
     (if length (bnch s) < SyncConcurrency (opts r) then Running p (s\<lparr>bnch := bnch s @ [bn]\<rparr>)
      else Running p s)"
| "step L V r MonitorReconnectSignal (Running p s) = Running p (s\<lparr>rech := True\<rparr>)"
| "step L V r MonitorTakeBrch (Running p s) =
     (case brch s of [] \<Rightarrow> Running p s | br # rest \<Rightarrow> Running p (s\<lparr>brch := rest\<rparr>))"
| "step L V r MonitorTakeBnch (Running p s) =
     (case bnch s of [] \<Rightarrow> Running p s | bn # rest \<Rightarrow> Running p (s\<lparr>bnch := rest\<rparr>))"
| "step L V r a c = c"

fun run :: "lib \<Rightarrow> vops \<Rightarrow> receiver \<Rightarrow> action list \<Rightarrow> config \<Rightarrow> config" where
  "run L V r [] c = c"
| "run L V r (a # as) c = run L V r as (step L V r a c)"

text \<open>
  \<open>receiveLoop\<close> up to its loop (lines 278 to 321): the verifier is built when the options
  name one, and the first \<open>reconnect()\<close> leaves its signal. \<open>n\<close> is the node as it
  answers \<open>newVerifer\<close>.
\<close>

definition receiveLoop_start ::
  "lib \<Rightarrow> vops \<Rightarrow> receiver \<Rightarrow> node \<Rightarrow> 64 word \<Rightarrow> 64 word \<Rightarrow> config" where
  "receiveLoop_start L V r n startHeight startSeq =
     (let s0 = \<lparr>loop_state.next = sint startHeight, vr = None, brch = [], bnch = [],
                rech = False, ctx_done = False, Seq = startSeq, msgCh = []\<rparr>
      in case Verifier (opts r) of
           None \<Rightarrow> Running AtSelect (reconnect s0)
         | Some vo \<Rightarrow>
             (case newVerifer L n V vo of
                Inl err \<Rightarrow> Returned (Some err) s0
              | Inr v \<Rightarrow> Running AtSelect (reconnect (s0\<lparr>vr := Some v\<rparr>))))"

text \<open>
  \<open>Subscribe\<close> (lines 636 to 677): \<open>opts.Seq++\<close>, the height raised to one, and the
  goroutine that runs \<open>receiveLoop\<close>. What the goroutine does to \<open>_errCh\<close> once
  \<open>receiveLoop\<close> has returned is \<open>errCh_events\<close>: the error is sent when it is not
  \<open>nil\<close>, and the deferred \<open>close\<close> runs.
\<close>

definition Subscribe_start ::
  "lib \<Rightarrow> vops \<Rightarrow> receiver \<Rightarrow> node \<Rightarrow> 64 word \<Rightarrow> 64 word \<Rightarrow> config" where
  "Subscribe_start L V r n h sq =
     receiveLoop_start L V r n (if h < 1 then 1 else h) (sq + 1)"

datatype chan_event = Send error | Close

definition errCh_events :: "config \<Rightarrow> chan_event list" where
  "errCh_events c =
     (case c of
        Returned None s \<Rightarrow> [Close]
      | Returned (Some err) s \<Rightarrow> [Send err, Close]
      | _ \<Rightarrow> [])"

text \<open>
  The variables in a configuration, and what is observed of them: the messages sent on
  \<open>msgCh\<close> so far, \<open>next\<close>, and \<open>opts.Seq\<close>.
\<close>

fun state_of :: "config \<Rightarrow> loop_state" where
  "state_of (Running p s) = s"
| "state_of (Returned err s) = s"
| "state_of (Crashed s) = s"
| "state_of (Unfinished s) = s"

definition messages_sent :: "config \<Rightarrow> Message list" where
  "messages_sent c = msgCh (state_of c)"

definition next_height :: "config \<Rightarrow> int" where
  "next_height c = loop_state.next (state_of c)"

definition expected_seq :: "config \<Rightarrow> 64 word" where
  "expected_seq c = Seq (state_of c)"

text \<open>
  The block results with which a run calls the callback (line 392), in order. A pass of
  the loop of line 373 reaches the call when there is no verifier, or when \<open>Verify\<close>
  accepts the header and \<open>Update\<close> returns no error.
\<close>

definition reaches_callback :: "vops \<Rightarrow> loop_state \<Rightarrow> res \<Rightarrow> bool" where
  "reaches_callback V s br =
     (case vr s of
        None \<Rightarrow> True
      | Some v \<Rightarrow>
          (case Verify V v (res.Header br) (res.Votes br) of
             (ok, err) \<Rightarrow>
               ok \<and> err = None \<and> fst (Update V v (res.Header br) (res.NextValidators br)) = None))"

fun call_of :: "vops \<Rightarrow> action \<Rightarrow> config \<Rightarrow> res list" where
  "call_of V DrainBody (Running (InDrain br) s) = (if reaches_callback V s br then [br] else [])"
| "call_of V a c = []"

fun callback_calls :: "lib \<Rightarrow> vops \<Rightarrow> receiver \<Rightarrow> action list \<Rightarrow> config \<Rightarrow> res list" where
  "callback_calls L V r [] c = []"
| "callback_calls L V r (a # as) c = call_of V a c @ callback_calls L V r as (step L V r a c)"

text \<open>
  The block results a configuration holds: the one the loop of line 373 has in hand, and
  those waiting in \<open>brch\<close>.
\<close>

fun in_hand :: "pc \<Rightarrow> res list" where
  "in_hand AtSelect = []"
| "in_hand (InDrain br) = [br]"

fun held :: "config \<Rightarrow> res list" where
  "held (Running p s) = in_hand p @ brch s"
| "held c = []"

section \<open>The validator cache's invariant\<close>

text \<open>
  An entry of the cache is sound when its validators are the decoding of some bytes whose
  SHA3-256 is the entry's hash; a verifier's cache is sound when each entry is.
\<close>

definition entry_sound :: "lib \<Rightarrow> bytes \<Rightarrow> Address list \<Rightarrow> bool" where
  "entry_sound L h vs = (\<exists>data. SHA3Sum256 L data = h \<and> Unmarshal_Validators L data = Inr vs)"

definition cache_sound :: "lib \<Rightarrow> Verifier \<Rightarrow> bool" where
  "cache_sound L v = (\<forall>h vs. validators v h = Some vs \<longrightarrow> entry_sound L h vs)"

text \<open>
  A block result brings checked validators when it has a header and its next validators
  are none, or a sound entry for the header's \<open>NextValidatorsHash\<close>.
\<close>

definition vals_ok :: "lib \<Rightarrow> res \<Rightarrow> bool" where
  "vals_ok L br =
     (\<exists>header. res.Header br = Some header
        \<and> (res.NextValidators br = []
             \<or> entry_sound L (NextValidatorsHash header) (res.NextValidators br)))"

text \<open>
  Modelled from the spec: \<open>Update\<close> of \<open>verifier.go\<close> is missing. An \<open>Update\<close> that
  returns an error leaves the verifier as it was; one that returns none was given a header
  and has done what the specification describes (\<open>Update_spec\<close>).
\<close>

definition Update_as_spec :: "vops \<Rightarrow> bool" where
  "Update_as_spec V =
     (\<forall>v header nvs.
        (\<exists>e. Update V v header nvs = (Some e, v))
        \<or> (\<exists>ht bh. header = Some bh \<and> Update V v header nvs = (None, Update_spec v ht bh nvs)))"

text \<open>The same for a result of a fetch task of \<open>syncVerifier\<close>.\<close>

definition sync_vals_ok :: "lib \<Rightarrow> sync_res \<Rightarrow> bool" where
  "sync_vals_ok L sr =
     (\<exists>header. sync_res.Header sr = Some header
        \<and> (sync_res.NextValidators sr = []
             \<or> entry_sound L (NextValidatorsHash header) (sync_res.NextValidators sr)))"

section \<open>A small chain for the worked examples\<close>

text \<open>
  Stand-ins for the library: a hexadecimal string is read by its length or byte by byte,
  the hash of some bytes is the bytes reversed, a proof is proved by its first node, and
  the bytes of an event log are those of its sequence number, the log being one the
  filter \<open>example_filter\<close> matches.
\<close>

definition example_lib :: lib where
  "example_lib =
     \<lparr>SHA3Sum256 = rev,
      mapError = (\<lambda>e. e),
      NewHexInt = (\<lambda>i. replicate (nat i) CHR ''x''),
      NewHexBytes = map (\<lambda>b. char_of (unat b)),
      HexInt_Value = (\<lambda>s. (int (length s), None)),
      HexBytes_Value = (\<lambda>s. (map (\<lambda>c. of_nat (of_char c)) s, None)),
      Unmarshal_BlockHeader = (\<lambda>b. Inr \<lparr>NextValidatorsHash = b, Result = b, serialized = []\<rparr>),
      Unmarshal_Validators = (\<lambda>b. Inr [b]),
      Unmarshal_BlockHeaderResult = (\<lambda>b. (\<lparr>ReceiptHash = b\<rparr>, None)),
      Unmarshal_TxResult = (\<lambda>b. Inr \<lparr>EventLogsHash = b\<rparr>),
      Unmarshal_EventLog = (\<lambda>b. Inr \<lparr>Addr = [1], Indexed = [[2], [3], b], Data = [[4]]\<rparr>),
      mptProve = (\<lambda>key proof root. case proof of [] \<Rightarrow> Inl (Error ''empty proof'') | leaf # path \<Rightarrow> Inr leaf)\<rparr>"

definition example_filter :: eventLogRawFilter where
  "example_filter = \<lparr>addr = [1], signature = [2], eventLogRawFilter.next = [3], seq = 0\<rparr>"

text \<open>
  A node whose blocks all have the header bytes \<open>[7]\<close>, and which answers
  \<open>GetProofForEvents\<close> with a receipt proof and one proof for each event asked for, the
  event at index \<open>k\<close> having the sequence number \<open>k\<close>.
\<close>

definition example_node :: node where
  "example_node =
     \<lparr>GetBlockHeaderByHeight = (\<lambda>h. Inr [7]),
      GetVotesByHeight = (\<lambda>h. Inr [8]),
      GetDataByHash = (\<lambda>h. Inr (rev (map (\<lambda>c. of_nat (of_char c)) h))),
      GetProofForEvents = (\<lambda>index blockHash evs. Inr ([[9]] # map (\<lambda>e. [[of_nat (length e)]]) evs))\<rparr>"

text \<open>The same node, when it leaves the event proofs out of its answer.\<close>

definition short_node :: node where
  "short_node = example_node\<lparr>GetProofForEvents := (\<lambda>index blockHash evs. Inr [[[9]]])\<rparr>"

text \<open>A verifier's operations that accept every header and count the heights.\<close>

definition example_vops :: vops where
  "example_vops =
     \<lparr>Verify = (\<lambda>v header votes. (True, None)),
      Update = (\<lambda>v header nvs. (None, v\<lparr>Verifier.next := Verifier.next v + 1\<rparr>))\<rparr>"



definition example_verifier :: Verifier where
  "example_verifier =
     \<lparr>Verifier.next = 100, nextValidatorsHash = [7], validators = [[7] \<mapsto> [[5]]]\<rparr>"

definition example_receiver :: receiver where
  "example_receiver =
     \<lparr>opts = \<lparr>SyncConcurrency = 3, Verifier = None\<rparr>, logFilter = example_filter\<rparr>"

text \<open>
  The notification of a block with no event, and of a block whose receipt 0 has the events
  of the sequence numbers \<open>ks\<close>. The height is written in the stand-in notation of
  \<open>example_lib\<close>. \<open>example_event k\<close> is the event the fetch task makes of the
  sequence number \<open>k\<close>.
\<close>

definition notify_empty :: "nat \<Rightarrow> BlockNotification" where
  "notify_empty h =
     \<lparr>BlockNotification.Hash = [], BlockNotification.Height = replicate h CHR ''x'', Indexes = [],
      BlockNotification.Events = []\<rparr>"

definition notify_events :: "nat \<Rightarrow> nat list \<Rightarrow> BlockNotification" where
  "notify_events h ks =
     \<lparr>BlockNotification.Hash = [], BlockNotification.Height = replicate h CHR ''x'',
      Indexes = [['''']], BlockNotification.Events = [[map (\<lambda>k. replicate k CHR ''x'') ks]]\<rparr>"

definition example_event :: "64 word \<Rightarrow> Event" where
  "example_event k = \<lparr>Event.Next = [3], Event.Sequence = k, Event.Message = [4]\<rparr>"

text \<open>A block result with no receipt, and a state of the loop with a verifier.\<close>

definition example_block :: "int \<Rightarrow> res" where
  "example_block h =
     \<lparr>res.Height = h, res.Hash = [],
      res.Header = Some \<lparr>NextValidatorsHash = [7], Result = [7], serialized = [7]\<rparr>,
      res.Votes = [8], res.NextValidators = [], res.Receipts = []\<rparr>"


text \<open>
  A wallet and serialisers for the worked example of \<open>SignTransaction\<close>: the
  serialisation of a transaction is its timestamp's bytes, and a signature is the hash
  reversed.
\<close>

definition example_signer :: "TransactionParam signer" where
  "example_signer =
     \<lparr>json_Marshal = (\<lambda>p. Inr (bytes_of (Timestamp p))),
      SerializeJSON = (\<lambda>js excludes. Inr js),
      EncodeToString = map (\<lambda>b. char_of (unat b)),
      Sign = (\<lambda>h. Inr (rev h))\<rparr>"

text \<open>Error codes, and a \<open>ParseInt\<close> that reads the one sub-code the client looks for.\<close>

definition example_consts :: rpc_consts where
  "example_consts =
     \<lparr>JsonrpcErrorCodeSystem = - 31000,
      JsonrpcErrorCodePending = - 31002,
      JsonrpcErrorCodeExecuting = - 31003,
      ParseInt = (\<lambda>s. if s = ''2000'' then (2000, None) else (0, Some (Error ''invalid syntax'')))\<rparr>"

text \<open>
  A run of the pipeline without a verifier, from height 3: the subscription starts, the
  blocks 3 and 4 are notified, fetched in one batch and forwarded, and the first is taken
  in hand and delivered. Block 3 has the events 1 and 2, block 4 the events 3 and 5.
\<close>

definition example_run :: "action list" where
  "example_run =
     [SelRech [], MonitorNotify (notify_events 3 [1, 2]), MonitorNotify (notify_events 4 [3, 5]),
      SelDefault (\<lambda>k. example_node), SelBrch, DrainBody]"

text \<open>
  A run in which the subscription goroutine's \<open>reconnect()\<close> meets the orchestrator: the
  blocks 3 and 4 are notified, fetched and forwarded; \<open>MonitorBlock\<close> has failed, and the
  goroutine's \<open>reconnect()\<close> sends its signal and receives the result of block 3 from
  \<open>brch\<close>; the orchestrator's \<open>select\<close> receives the result of block 4 and the loop
  of line 373 delivers it. \<open>overtaken_run_resumed\<close> goes on: the subscription starts
  again from \<open>next\<close>, and block 4 is notified, fetched, forwarded and delivered.
\<close>

definition overtaken_run :: "action list" where
  "overtaken_run =
     [SelRech [], MonitorNotify (notify_empty 3), MonitorNotify (notify_events 4 [1]),
      SelDefault (\<lambda>k. example_node),
      MonitorReconnectSignal, MonitorTakeBrch,
      SelBrch, DrainBody]"

definition overtaken_run_resumed :: "action list" where
  "overtaken_run_resumed =
     overtaken_run @
     [SelRech [], MonitorNotify (notify_events 4 [1]), SelDefault (\<lambda>k. example_node),
      SelBrch, DrainBody]"

text \<open>
  A run in which the node leaves the event proofs out: block 3, whose receipt 0 has the
  event 1, is notified, fetched from \<open>short_node\<close>, forwarded and delivered.
\<close>

definition short_run :: "action list" where
  "short_run =
     [SelRech [], MonitorNotify (notify_events 3 [1]), SelDefault (\<lambda>k. short_node),
      SelBrch, DrainBody]"


text \<open>
  A verifier's operations whose \<open>Update\<close> is the one the specification describes, at the
  height the verifier is at; and a receiver with a verifier, whose first block is 100.
\<close>

definition spec_vops :: vops where
  "spec_vops =
     \<lparr>Verify = (\<lambda>v header votes. (True, None)),
      Update = (\<lambda>v header nvs.
                  case header of
                    None \<Rightarrow> (Some (Error ''no header''), v)
                  | Some bh \<Rightarrow> (None, Update_spec v (Verifier.next v) bh nvs))\<rparr>"

definition verifying_receiver :: receiver where
  "verifying_receiver =
     \<lparr>opts = \<lparr>SyncConcurrency = 3, Verifier = Some \<lparr>BlockHeight = 100, ValidatorsHash = [7]\<rparr>\<rparr>,
      logFilter = example_filter\<rparr>"

text \<open>
  A node whose blocks have the header bytes \<open>[6]\<close>, so that their next validators are
  not those the verifier was started with; and a run with a verifier from height 100, in
  which block 100 is notified, fetched from that node, forwarded, verified and delivered.
\<close>

definition rotating_node :: node where
  "rotating_node = example_node\<lparr>GetBlockHeaderByHeight := (\<lambda>h. Inr [6])\<rparr>"

definition verifying_run :: "action list" where
  "verifying_run =
     [SelRech [], MonitorNotify (notify_empty 100), SelDefault (\<lambda>k. rotating_node),
      SelBrch, DrainBody]"

section \<open>The sequence policy of \<open>Subscribe\<close>\<close>

lemma seq_from_add: "seq_from s (m + n) = seq_from s m @ seq_from (s + of_nat m) n"
  by (induction m arbitrary: s) (auto simp: ac_simps)

lemma seq_from_snoc: "seq_from s n @ [s + of_nat n] = seq_from s (Suc n)"
  using seq_from_add [of s n 1] by simp

lemma length_seq_from [simp]: "length (seq_from s n) = n"
  by (induction n arbitrary: s) auto

lemma nth_seq_from: "i < n \<Longrightarrow> seq_from s n ! i = s + of_nat i"
proof (induction n arbitrary: s i)
  case 0 then show ?case by simp
next
  case (Suc n)
  then show ?case by (cases i) (auto simp: add.assoc add.commute)
qed

lemma callback_events_seqs:
  "callback_events sq acc es = Inr (seq1, evs) \<Longrightarrow>
     \<exists>n. seq1 = sq + of_nat n \<and> map Event.Sequence evs = map Event.Sequence acc @ seq_from sq n"
proof (induction es arbitrary: sq acc)
  case Nil
  then have "seq1 = sq + of_nat 0 \<and> map Event.Sequence evs = map Event.Sequence acc @ seq_from sq 0" by simp
  then show ?case by blast
next
  case (Cons e es)
  show ?case
  proof (cases "Event.Sequence e = sq")
    case True
    with Cons.prems have "callback_events (sq + 1) (acc @ [e]) es = Inr (seq1, evs)" by simp
    from Cons.IH [OF this] obtain n where
      n: "seq1 = sq + 1 + of_nat n" "map Event.Sequence evs = map Event.Sequence (acc @ [e]) @ seq_from (sq + 1) n"
      by blast
    have "seq1 = sq + of_nat (Suc n) \<and> map Event.Sequence evs = map Event.Sequence acc @ seq_from sq (Suc n)"
      using n True by (simp add: add.assoc add.commute)
    then show ?thesis by blast
  next
    case False
    with Cons.prems have "callback_events sq acc es = Inr (seq1, evs)"
      by (simp split: if_splits)
    from Cons.IH [OF this] show ?thesis .
  qed
qed

lemma callback_receipts_seqs:
  "callback_receipts sq rs = Inr (seq1, rs1) \<Longrightarrow>
     \<exists>n. seq1 = sq + of_nat n \<and> map Event.Sequence (concat (map Receipt.Events rs1)) = seq_from sq n"
proof (induction rs arbitrary: sq seq1 rs1)
  case Nil
  then have "seq1 = sq + of_nat 0 \<and> map Event.Sequence (concat (map Receipt.Events rs1)) = seq_from sq 0" by simp
  then show ?case by blast
next
  case (Cons r rs)
  from Cons.prems obtain sa evs sb rs2 where
    a: "callback_events sq [] (Receipt.Events r) = Inr (sa, evs)" and
    b: "callback_receipts sa rs = Inr (sb, rs2)" and
    c: "seq1 = sb" "rs1 = r\<lparr>Receipt.Events := evs\<rparr> # rs2"
    by (auto split: sum.splits prod.splits)
  from callback_events_seqs [OF a] obtain n where n: "sa = sq + of_nat n" "map Event.Sequence evs = seq_from sq n"
    by auto
  from Cons.IH [OF b] obtain m where m: "sb = sa + of_nat m" "map Event.Sequence (concat (map Receipt.Events rs2)) = seq_from sa m"
    by blast
  have "seq1 = sq + of_nat (n + m) \<and> map Event.Sequence (concat (map Receipt.Events rs1)) = seq_from sq (n + m)"
    using c n m by (simp add: seq_from_add add.assoc)
  then show ?case by blast
qed

lemma callback_seqs:
  "callback sq rs = Inr (seq1, m) \<Longrightarrow>
     \<exists>n. seq1 = sq + of_nat n \<and>
         delivered_sequences (case m of None \<Rightarrow> [] | Some msg \<Rightarrow> [msg]) = seq_from sq n"
proof -
  assume a: "callback sq rs = Inr (seq1, m)"
  then obtain rs1 where r: "callback_receipts sq rs = Inr (seq1, rs1)"
    and m: "m = (if length rs1 > 0 then Some \<lparr>Message.Receipts = rs1\<rparr> else None)"
    by (auto simp: callback_def split: sum.splits prod.splits)
  from callback_receipts_seqs [OF r] obtain n where
    n: "seq1 = sq + of_nat n" "map Event.Sequence (concat (map Receipt.Events rs1)) = seq_from sq n" by blast
  have "delivered_sequences (case m of None \<Rightarrow> [] | Some msg \<Rightarrow> [msg]) = seq_from sq n"
    using m n by (cases rs1) (auto simp: delivered_sequences_def)
  with n show ?thesis by blast
qed

lemma delivered_sequences_append:
  "delivered_sequences (xs @ ys) = delivered_sequences xs @ delivered_sequences ys"
  by (simp add: delivered_sequences_def)

lemma deliver_seqs:
  "deliver sq blocks = (ms, r, seq2) \<Longrightarrow> \<exists>n. delivered_sequences ms = seq_from sq n"
proof (induction blocks arbitrary: sq ms r seq2)
  case Nil
  then have "delivered_sequences ms = seq_from sq 0" by (simp add: delivered_sequences_def)
  then show ?case by blast
next
  case (Cons b bs)
  show ?case
  proof (cases "callback sq b")
    case (Inl e)
    with Cons.prems have "delivered_sequences ms = seq_from sq 0" by (simp add: delivered_sequences_def)
    then show ?thesis by blast
  next
    case (Inr p)
    obtain seq1 m where p: "p = (seq1, m)" by (cases p)
    obtain ms1 r1 s1 where d: "deliver seq1 bs = (ms1, r1, s1)" by (cases "deliver seq1 bs")
    from Cons.prems Inr p d have ms: "ms = (case m of None \<Rightarrow> [] | Some msg \<Rightarrow> [msg]) @ ms1"
      by (auto split: option.splits)
    from callback_seqs [OF Inr [unfolded p]] obtain n where
      n: "seq1 = sq + of_nat n" "delivered_sequences (case m of None \<Rightarrow> [] | Some msg \<Rightarrow> [msg]) = seq_from sq n"
      by blast
    from Cons.IH [OF d] obtain k where k: "delivered_sequences ms1 = seq_from seq1 k" by blast
    have "delivered_sequences ms = seq_from sq (n + k)"
      using ms n k by (simp add: delivered_sequences_append seq_from_add)
    then show ?thesis by blast
  qed
qed

lemma callback_events_policy:
  "callback_events sq acc es =
     (case spec_policy sq es of
        (included, failed) \<Rightarrow>
          if failed then Inl (Error ''invalid event seq'')
          else Inr (sq + of_nat (length included), acc @ included))"
proof (induction es arbitrary: sq acc)
  case Nil
  show ?case by simp
next
  case (Cons e es)
  show ?case
  proof (cases "Event.Sequence e = sq")
    case True
    then show ?thesis
      using Cons.IH [of "sq + 1" "acc @ [e]"]
      by (simp add: ac_simps split: prod.splits)
  next
    case False
    then show ?thesis using Cons.IH [of sq acc] by (simp split: prod.splits)
  qed
qed

lemma spec_policy_append:
  "spec_policy sq (xs @ ys) =
     (case spec_policy sq xs of
        (i1, failed1) \<Rightarrow>
          if failed1 then (i1, True)
          else (case spec_policy (sq + of_nat (length i1)) ys of (i2, failed2) \<Rightarrow> (i1 @ i2, failed2)))"
proof (induction xs arbitrary: sq)
  case Nil
  show ?case by simp
next
  case (Cons e xs)
  show ?case
    using Cons.IH [of "sq + 1"] Cons.IH [of sq]
    by (simp add: ac_simps split: prod.splits if_splits)
qed

lemma callback_receipts_Cons:
  "callback_receipts sq (r # rs) =
     (case spec_policy sq (Receipt.Events r) of
        (i1, f1) \<Rightarrow>
          if f1 then Inl (Error ''invalid event seq'')
          else (case callback_receipts (sq + of_nat (length i1)) rs of
                  Inl e \<Rightarrow> Inl e
                | Inr (seq2, rs1) \<Rightarrow> Inr (seq2, r\<lparr>Receipt.Events := i1\<rparr> # rs1)))"
  by (simp add: callback_events_policy split: prod.splits)

lemma callback_receipts_policy:
  "case spec_policy sq (concat (map Receipt.Events rs)) of
     (included, failed) \<Rightarrow>
       if failed then callback_receipts sq rs = Inl (Error ''invalid event seq'')
       else (\<exists>rs1. callback_receipts sq rs = Inr (sq + of_nat (length included), rs1) \<and>
                   concat (map Receipt.Events rs1) = included \<and> length rs1 = length rs)"
proof (induction rs arbitrary: sq)
  case Nil
  show ?case by simp
next
  case (Cons r rs)
  obtain i1 f1 where p1: "spec_policy sq (Receipt.Events r) = (i1, f1)" by (cases "spec_policy sq (Receipt.Events r)")
  have cat: "concat (map Receipt.Events (r # rs)) = Receipt.Events r @ concat (map Receipt.Events rs)" by simp
  show ?case
  proof (cases f1)
    case True
    have "spec_policy sq (concat (map Receipt.Events (r # rs))) = (i1, True)"
      unfolding cat spec_policy_append using p1 True by simp
    moreover have "callback_receipts sq (r # rs) = Inl (Error ''invalid event seq'')"
      unfolding callback_receipts_Cons using p1 True by simp
    ultimately show ?thesis by simp
  next
    case False
    define s1 where "s1 = sq + of_nat (length i1)"
    obtain i2 f2 where p2: "spec_policy s1 (concat (map Receipt.Events rs)) = (i2, f2)"
      by (cases "spec_policy s1 (concat (map Receipt.Events rs))")
    have sp: "spec_policy sq (concat (map Receipt.Events (r # rs))) = (i1 @ i2, f2)"
      unfolding cat spec_policy_append using p1 False p2 by (simp add: s1_def)
    have cr: "callback_receipts sq (r # rs) =
        (case callback_receipts s1 rs of
                  Inl e \<Rightarrow> Inl e
                | Inr (seq2, rs1) \<Rightarrow> Inr (seq2, r\<lparr>Receipt.Events := i1\<rparr> # rs1))"
      unfolding callback_receipts_Cons using p1 False by (simp add: s1_def)
    from Cons.IH [of s1] p2
    have ih: "if f2 then callback_receipts s1 rs = Inl (Error ''invalid event seq'')
       else (\<exists>rs1. callback_receipts s1 rs = Inr (s1 + of_nat (length i2), rs1) \<and>
                   concat (map Receipt.Events rs1) = i2 \<and> length rs1 = length rs)" by simp
    show ?thesis
    proof (cases f2)
      case True
      with ih have "callback_receipts sq (r # rs) = Inl (Error ''invalid event seq'')"
        unfolding cr by simp
      with sp True show ?thesis by simp
    next
      case f: False
      with ih obtain rs1 where
        rs1: "callback_receipts s1 rs = Inr (s1 + of_nat (length i2), rs1)"
             "concat (map Receipt.Events rs1) = i2" "length rs1 = length rs" by auto
      have s: "s1 + of_nat (length i2) = sq + of_nat (length (i1 @ i2))"
        by (simp add: s1_def add.assoc)
      have "callback_receipts sq (r # rs) = Inr (sq + of_nat (length (i1 @ i2)), r\<lparr>Receipt.Events := i1\<rparr> # rs1)"
        unfolding cr rs1(1) s by simp
      moreover have "concat (map Receipt.Events (r\<lparr>Receipt.Events := i1\<rparr> # rs1)) = i1 @ i2" using rs1(2) by simp
      moreover have "length (r\<lparr>Receipt.Events := i1\<rparr> # rs1) = length (r # rs)" using rs1(3) by simp
      ultimately have "\<exists>rs2. callback_receipts sq (r # rs) = Inr (sq + of_nat (length (i1 @ i2)), rs2) \<and>
                   concat (map Receipt.Events rs2) = i1 @ i2 \<and> length rs2 = length (r # rs)" by blast
      with sp f show ?thesis by simp
    qed
  qed
qed

lemma callback_policy:
  "case spec_policy sq (concat (map Receipt.Events rs)) of
     (included, failed) \<Rightarrow>
       if failed then callback sq rs = Inl (Error ''invalid event seq'')
       else (\<exists>m. callback sq rs = Inr (sq + of_nat (length included), m) \<and>
                 delivered_events (case m of None \<Rightarrow> [] | Some msg \<Rightarrow> [msg]) = included)"
proof -
  obtain inc f where p: "spec_policy sq (concat (map Receipt.Events rs)) = (inc, f)"
    by (cases "spec_policy sq (concat (map Receipt.Events rs))")
  show ?thesis
  proof (cases f)
    case True
    with p callback_receipts_policy [of sq rs]
    have "callback_receipts sq rs = Inl (Error ''invalid event seq'')" by simp
    then have "callback sq rs = Inl (Error ''invalid event seq'')" by (simp add: callback_def)
    with p True show ?thesis by simp
  next
    case False
    with p callback_receipts_policy [of sq rs] obtain rs1 where
      rs1: "callback_receipts sq rs = Inr (sq + of_nat (length inc), rs1)" "concat (map Receipt.Events rs1) = inc"
      by auto
    define m where "m = (if length rs1 > 0 then Some \<lparr>Message.Receipts = rs1\<rparr> else None)"
    have c: "callback sq rs = Inr (sq + of_nat (length inc), m)"
      by (simp add: callback_def rs1(1) m_def)
    have "delivered_events (case m of None \<Rightarrow> [] | Some msg \<Rightarrow> [msg]) = inc"
      using rs1(2) by (cases rs1) (simp_all add: m_def delivered_events_def)
    with c have "\<exists>m. callback sq rs = Inr (sq + of_nat (length inc), m) \<and>
                 delivered_events (case m of None \<Rightarrow> [] | Some msg \<Rightarrow> [msg]) = inc" by blast
    with p False show ?thesis by simp
  qed
qed

lemma delivered_events_append:
  "delivered_events (xs @ ys) = delivered_events xs @ delivered_events ys"
  by (simp add: delivered_events_def)

lemma deliver_policy:
  "deliver sq blocks = (ms, r, seq2) \<Longrightarrow>
     (case spec_policy sq (concat (map Receipt.Events (concat blocks))) of
        (included, failed) \<Rightarrow>
          if failed then r = Some (Error ''invalid event seq'') \<and> (\<exists>unsent. included = delivered_events ms @ unsent)
          else r = None \<and> delivered_events ms = included \<and> seq2 = sq + of_nat (length included))"
proof (induction blocks arbitrary: sq ms r seq2)
  case Nil
  then show ?case by (simp add: delivered_events_def)
next
  case (Cons b bs)
  obtain i1 f1 where p1: "spec_policy sq (concat (map Receipt.Events b)) = (i1, f1)"
    by (cases "spec_policy sq (concat (map Receipt.Events b))")
  have cat: "concat (map Receipt.Events (concat (b # bs))) = concat (map Receipt.Events b) @ concat (map Receipt.Events (concat bs))"
    by simp
  show ?case
  proof (cases f1)
    case True
    with p1 callback_policy [of sq b] have "callback sq b = Inl (Error ''invalid event seq'')" by simp
    with Cons.prems have "ms = []" "r = Some (Error ''invalid event seq'')" by simp_all
    moreover have "spec_policy sq (concat (map Receipt.Events (concat (b # bs)))) = (i1, True)"
      unfolding cat spec_policy_append using p1 True by simp
    ultimately show ?thesis by (simp add: delivered_events_def)
  next
    case False
    define s1 where "s1 = sq + of_nat (length i1)"
    from False p1 callback_policy [of sq b] obtain m where
      m: "callback sq b = Inr (s1, m)"
         "delivered_events (case m of None \<Rightarrow> [] | Some msg \<Rightarrow> [msg]) = i1" by (auto simp: s1_def)
    obtain ms1 r1 s2 where d: "deliver s1 bs = (ms1, r1, s2)"
      by (cases "deliver s1 bs")
    from Cons.prems m(1) d have ms: "ms = (case m of None \<Rightarrow> [] | Some msg \<Rightarrow> [msg]) @ ms1" "r = r1" "seq2 = s2"
      by (simp_all split: option.splits)
    have de: "delivered_events ms = i1 @ delivered_events ms1"
      unfolding ms(1) delivered_events_append m(2) ..
    obtain i2 f2 where p2: "spec_policy s1 (concat (map Receipt.Events (concat bs))) = (i2, f2)"
      by (cases "spec_policy s1 (concat (map Receipt.Events (concat bs)))")
    have sp: "spec_policy sq (concat (map Receipt.Events (concat (b # bs)))) = (i1 @ i2, f2)"
      unfolding cat spec_policy_append using p1 False p2 by (simp add: s1_def)
    from Cons.IH [OF d] p2
    have ih: "if f2 then r1 = Some (Error ''invalid event seq'') \<and> (\<exists>unsent. i2 = delivered_events ms1 @ unsent)
          else r1 = None \<and> delivered_events ms1 = i2 \<and> s2 = s1 + of_nat (length i2)" by simp
    show ?thesis
    proof (cases f2)
      case True
      with ih obtain unsent where "r1 = Some (Error ''invalid event seq'')" "i2 = delivered_events ms1 @ unsent"
        by auto
      then have "r = Some (Error ''invalid event seq'')" "i1 @ i2 = delivered_events ms @ unsent"
        using ms(2) de by simp_all
      with sp True show ?thesis by auto
    next
      case f: False
      with ih have "r1 = None" "delivered_events ms1 = i2" "s2 = s1 + of_nat (length i2)" by simp_all
      then have "r = None" "delivered_events ms = i1 @ i2" "seq2 = sq + of_nat (length (i1 @ i2))"
        using ms de by (simp_all add: s1_def add.assoc)
      with sp f show ?thesis by simp
    qed
  qed
qed

lemma seq_from_consecutive:
  "xs = seq_from s n \<Longrightarrow>
     (xs \<noteq> [] \<longrightarrow> hd xs = s) \<and> (\<forall>i. Suc i < length xs \<longrightarrow> xs ! Suc i = xs ! i + 1)"
proof (intro conjI impI allI)
  assume x: "xs = seq_from s n" and "xs \<noteq> []"
  then show "hd xs = s" by (cases n) auto
next
  fix i assume x: "xs = seq_from s n" and i: "Suc i < length xs"
  then have "Suc i < n" "i < n" by simp_all
  then show "xs ! Suc i = xs ! i + 1"
    unfolding x by (simp add: nth_seq_from add.assoc add.commute)
qed


section \<open>Runs of the pipeline and the callback\<close>

lemma run_Returned: "run L V r acts (Returned err s) = Returned err s"
  by (induction acts) auto

lemma run_Crashed: "run L V r acts (Crashed s) = Crashed s"
  by (induction acts) auto

lemma run_Unfinished: "run L V r acts (Unfinished s) = Unfinished s"
  by (induction acts) auto

lemma callback_calls_Returned: "callback_calls L V r acts (Returned err s) = []"
  by (induction acts) auto

lemma on_reconnect_silent:
  "msgCh (state_of (on_reconnect L V r ns s)) = msgCh s \<and> Seq (state_of (on_reconnect L V r ns s)) = Seq s"
  by (auto simp: on_reconnect_def split: option.splits prod.splits)

lemma on_notification_silent:
  "msgCh (state_of (on_notification L r nodes s)) = msgCh s
   \<and> Seq (state_of (on_notification L r nodes s)) = Seq s"
  by (auto simp: on_notification_def reconnect_def split: list.splits fill_result.splits exec.splits)

lemma drain_body_silent:
  "\<not> reaches_callback V s br \<Longrightarrow>
     msgCh (state_of (drain_body V s br)) = msgCh s \<and> Seq (state_of (drain_body V s br)) = Seq s"
  by (auto simp: drain_body_def reaches_callback_def reconnect_def split: option.splits prod.splits)

lemma step_silent:
  "call_of V a c = [] \<Longrightarrow>
     msgCh (state_of (step L V r a c)) = msgCh (state_of c)
     \<and> Seq (state_of (step L V r a c)) = Seq (state_of c)"
proof (cases c)
  case (Running p s)
  assume n: "call_of V a c = []"
  show ?thesis
  proof (cases p)
    case AtSelect
    with Running show ?thesis
      by (cases a) (auto simp: on_reconnect_silent on_notification_silent split: list.splits)
  next
    case (InDrain br)
    with Running n show ?thesis
      by (cases a) (auto simp: drain_body_silent split: list.splits if_splits)
  qed
qed auto

lemma drain_body_call:
  "reaches_callback V s br \<Longrightarrow>
     \<exists>s1. drain_body V s br = deliver_block s1 br \<and> Seq s1 = Seq s \<and> msgCh s1 = msgCh s"
proof (cases "vr s")
  case None
  then have "drain_body V s br = deliver_block s br" by (simp add: drain_body_def)
  then show ?thesis by blast
next
  case (Some v)
  assume rc: "reaches_callback V s br"
  obtain e v1 where u: "Update V v (res.Header br) (res.NextValidators br) = (e, v1)"
    by (cases "Update V v (res.Header br) (res.NextValidators br)")
  from rc Some u have "Verify V v (res.Header br) (res.Votes br) = (True, None)" "e = None"
    by (auto simp: reaches_callback_def split: prod.splits)
  with Some u have "drain_body V s br = deliver_block (s\<lparr>vr := Some v1\<rparr>) br"
    by (simp add: drain_body_def)
  moreover have "Seq (s\<lparr>vr := Some v1\<rparr>) = Seq s \<and> msgCh (s\<lparr>vr := Some v1\<rparr>) = msgCh s" by simp
  ultimately show ?thesis by blast
qed

lemma step_call:
  "call_of V a c = x # xs \<Longrightarrow>
     xs = [] \<and> (\<exists>s s1. c = Running (InDrain x) s \<and> step L V r a c = deliver_block s1 x
                  \<and> Seq s1 = Seq s \<and> msgCh s1 = msgCh s)"
proof -
  assume n: "call_of V a c = x # xs"
  then obtain br s where c: "c = Running (InDrain br) s" and a: "a = DrainBody"
    by (cases "(V, a, c)" rule: call_of.cases) auto
  from n c a have rc: "reaches_callback V s br" and x: "x = br" "xs = []"
    by (auto split: if_splits)
  from drain_body_call [OF rc] obtain s1 where
    "drain_body V s br = deliver_block s1 br" "Seq s1 = Seq s" "msgCh s1 = msgCh s" by blast
  with c a x show ?thesis by auto
qed

lemma deliver_block_fail:
  "callback (Seq s) (res.Receipts br) = Inl e \<Longrightarrow>
     deliver_block s br = Returned (Some (Wrapped ''receiveLoop: callback'' e)) s"
  by (simp add: deliver_block_def)

lemma deliver_block_ok:
  "callback (Seq s) (res.Receipts br) = Inr (sq1, m) \<Longrightarrow>
     \<exists>p s1. deliver_block s br = Running p s1 \<and> Seq s1 = sq1
        \<and> msgCh s1 = msgCh s @ (case m of None \<Rightarrow> [] | Some msg \<Rightarrow> [msg])"
  by (auto simp: deliver_block_def Let_def split: list.splits)

lemma run_deliver:
  "deliver (Seq (state_of c)) (map res.Receipts (callback_calls L V r acts c)) = (ms, e, sq1) \<Longrightarrow>
     msgCh (state_of (run L V r acts c)) = msgCh (state_of c) @ ms
     \<and> (case e of
          None \<Rightarrow> Seq (state_of (run L V r acts c)) = sq1
        | Some err \<Rightarrow>
            (\<exists>s1. run L V r acts c = Returned (Some (Wrapped ''receiveLoop: callback'' err)) s1)
            \<and> (\<exists>pre b. callback_calls L V r acts c = pre @ [b]
                  \<and> deliver (Seq (state_of c)) (map res.Receipts pre) = (ms, None, sq1)
                  \<and> callback sq1 (res.Receipts b) = Inl err))"
proof (induction acts arbitrary: c ms e sq1)
  case Nil
  then show ?case by simp
next
  case (Cons a acts)
  let ?c1 = "step L V r a c"
  show ?case
  proof (cases "call_of V a c")
    case Nil
    from step_silent [OF Nil, of L r]
    have q: "msgCh (state_of ?c1) = msgCh (state_of c)" "Seq (state_of ?c1) = Seq (state_of c)"
      by simp_all
    from Cons.prems Nil q
    have "deliver (Seq (state_of ?c1)) (map res.Receipts (callback_calls L V r acts ?c1)) = (ms, e, sq1)"
      by simp
    from Cons.IH [OF this] Nil q show ?thesis by (cases e) auto
  next
    case (Cons x xs)
    from step_call [OF Cons, of L r] obtain s s1 where
      xs: "xs = []" and c: "c = Running (InDrain x) s" and
      st: "?c1 = deliver_block s1 x" and q: "Seq s1 = Seq s" "msgCh s1 = msgCh s"
      by blast
    have calls: "callback_calls L V r (a # acts) c = x # callback_calls L V r acts ?c1"
      using Cons xs by simp
    show ?thesis
    proof (cases "callback (Seq s) (res.Receipts x)")
      case (Inl err)
      with Cons.prems calls c have r: "ms = []" "e = Some err" "sq1 = Seq s" by simp_all
      from Inl q have c1: "?c1 = Returned (Some (Wrapped ''receiveLoop: callback'' err)) s1"
        unfolding st by (simp add: deliver_block_fail)
      then have run: "run L V r (a # acts) c = Returned (Some (Wrapped ''receiveLoop: callback'' err)) s1"
        by (simp add: run_Returned)
      have "callback_calls L V r (a # acts) c = [] @ [x]"
        unfolding calls c1 by (simp add: callback_calls_Returned)
      moreover have "deliver (Seq (state_of c)) (map res.Receipts []) = (ms, None, sq1)"
        using r c by simp
      moreover have "callback sq1 (res.Receipts x) = Inl err" using Inl r by simp
      ultimately have "\<exists>pre b. callback_calls L V r (a # acts) c = pre @ [b]
                  \<and> deliver (Seq (state_of c)) (map res.Receipts pre) = (ms, None, sq1)
                  \<and> callback sq1 (res.Receipts b) = Inl err" by blast
      with run r q c show ?thesis by simp
    next
      case (Inr pr)
      obtain sq2 m where pr: "pr = (sq2, m)" by (cases pr)
      from Inr pr q have cb: "callback (Seq s1) (res.Receipts x) = Inr (sq2, m)" by simp
      from deliver_block_ok [OF cb] st obtain p s2 where
        c1: "?c1 = Running p s2" and s2: "Seq s2 = sq2"
            "msgCh s2 = msgCh s1 @ (case m of None \<Rightarrow> [] | Some msg \<Rightarrow> [msg])"
        by auto
      obtain ms1 e1 sq3 where d: "deliver sq2 (map res.Receipts (callback_calls L V r acts ?c1)) = (ms1, e1, sq3)"
        by (cases "deliver sq2 (map res.Receipts (callback_calls L V r acts ?c1))")
      from Cons.prems calls c Inr pr d
      have r: "ms = (case m of None \<Rightarrow> [] | Some msg \<Rightarrow> [msg]) @ ms1" "e = e1" "sq1 = sq3"
        by (simp_all split: option.splits)
      from d c1 s2 have "deliver (Seq (state_of ?c1)) (map res.Receipts (callback_calls L V r acts ?c1)) = (ms1, e1, sq3)"
        by simp
      note ih = Cons.IH [OF this]
      have m1: "msgCh (state_of (run L V r (a # acts) c)) = msgCh (state_of c) @ ms"
        using ih c1 s2 q c r by simp
      show ?thesis
      proof (cases e1)
        case None
        with ih m1 r show ?thesis by simp
      next
        case (Some err)
        with ih obtain s3 pre b where
          f: "run L V r acts ?c1 = Returned (Some (Wrapped ''receiveLoop: callback'' err)) s3"
             "callback_calls L V r acts ?c1 = pre @ [b]"
             "deliver (Seq (state_of ?c1)) (map res.Receipts pre) = (ms1, None, sq3)"
             "callback sq3 (res.Receipts b) = Inl err"
          by auto
        have "callback_calls L V r (a # acts) c = (x # pre) @ [b]" using calls f(2) by simp
        moreover have "deliver (Seq (state_of c)) (map res.Receipts (x # pre)) = (ms, None, sq1)"
          using f(3) c1 s2 c Inr pr r by (simp split: option.splits)
        moreover have "callback sq1 (res.Receipts b) = Inl err" using f(4) r by simp
        ultimately have "\<exists>pre b. callback_calls L V r (a # acts) c = pre @ [b]
                  \<and> deliver (Seq (state_of c)) (map res.Receipts pre) = (ms, None, sq1)
                  \<and> callback sq1 (res.Receipts b) = Inl err" by blast
        with f(1) m1 Some r show ?thesis by simp
      qed
    qed
  qed
qed

lemma Subscribe_start_state:
  "msgCh (state_of (Subscribe_start L V r n h startSeq)) = []
   \<and> Seq (state_of (Subscribe_start L V r n h startSeq)) = startSeq + 1"
  by (auto simp: Subscribe_start_def receiveLoop_start_def reconnect_def Let_def
           split: option.splits sum.splits)




lemma deliver_None_policy:
  "deliver sq blocks = (ms, None, sq1) \<Longrightarrow>
     spec_policy sq (concat (map Receipt.Events (concat blocks))) = (delivered_events ms, False)
     \<and> sq1 = sq + of_nat (length (delivered_events ms))"
  using deliver_policy [of sq blocks ms None sq1]
  by (cases "spec_policy sq (concat (map Receipt.Events (concat blocks)))") (auto split: if_splits)

lemma callback_Inl_policy:
  "callback sq rs = Inl err \<Longrightarrow>
     err = Error ''invalid event seq'' \<and> snd (spec_policy sq (concat (map Receipt.Events rs)))"
  using callback_policy [of sq rs]
  by (cases "spec_policy sq (concat (map Receipt.Events rs))") (auto split: if_splits)

text \<open>
  Claim C2. In every run of the goroutine that \<open>Subscribe\<close> starts, the sequence policy of
  the specification, with the counter starting at \<open>startSeq + 1\<close>, is applied to the events
  of the block results the callback is called with, in block order, then receipt order, then
  event order. While the policy meets no event above the counter, the events sent on
  \<open>msgCh\<close> are exactly those the policy includes, and \<open>opts.Seq\<close> is the counter after
  them. When it meets one, \<open>receiveLoop\<close> has returned the error \<open>invalid event seq\<close>
  wrapped by \<open>receiveLoop: callback\<close>, that error is sent on the error channel, which is then
  closed, and the events sent are those the policy includes in the blocks before the last
  one, the failing block. The messages sent are those of \<open>deliver\<close>. The sequences of the
  events sent are consecutive from \<open>startSeq + 1\<close> (in \<open>uint64\<close> arithmetic).
\<close>

theorem C2_sequence_policy:
  "let c = run L V r acts (Subscribe_start L V r n h startSeq);
       blocks = map res.Receipts (callback_calls L V r acts (Subscribe_start L V r n h startSeq));
       sent = delivered_events (messages_sent c);
       seqs = delivered_sequences (messages_sent c)
   in (case spec_policy (startSeq + 1) (concat (map Receipt.Events (concat blocks))) of
         (included, failed) \<Rightarrow>
           if failed
           then (\<exists>s. c = Returned (Some (Wrapped ''receiveLoop: callback'' (Error ''invalid event seq''))) s)
                \<and> errCh_events c
                    = [Send (Wrapped ''receiveLoop: callback'' (Error ''invalid event seq'')), Close]
                \<and> blocks \<noteq> []
                \<and> spec_policy (startSeq + 1) (concat (map Receipt.Events (concat (butlast blocks))))
                    = (sent, False)
           else sent = included \<and> expected_seq c = startSeq + 1 + of_nat (length included))
      \<and> messages_sent c = fst (deliver (startSeq + 1) blocks)
      \<and> (\<exists>k. seqs = seq_from (startSeq + 1) k)
      \<and> (seqs \<noteq> [] \<longrightarrow> hd seqs = startSeq + 1)
      \<and> (\<forall>i. Suc i < length seqs \<longrightarrow> seqs ! Suc i = seqs ! i + 1)"
proof -
  define c0 where "c0 = Subscribe_start L V r n h startSeq"
  define c where "c = run L V r acts c0"
  define calls where "calls = callback_calls L V r acts c0"
  define blocks where "blocks = map res.Receipts calls"
  define sent where "sent = delivered_events (messages_sent c)"
  define seqs where "seqs = delivered_sequences (messages_sent c)"
  have st: "msgCh (state_of c0) = []" "Seq (state_of c0) = startSeq + 1"
    unfolding c0_def by (simp_all add: Subscribe_start_state)
  obtain ms e sq1 where d: "deliver (startSeq + 1) blocks = (ms, e, sq1)"
    by (cases "deliver (startSeq + 1) blocks")
  then have d0: "deliver (Seq (state_of c0)) (map res.Receipts (callback_calls L V r acts c0)) = (ms, e, sq1)"
    by (simp add: st blocks_def calls_def)
  note rd = run_deliver [OF d0]
  from rd st have ms: "messages_sent c = ms" by (simp add: messages_sent_def c_def)
  obtain included failed where
    p: "spec_policy (startSeq + 1) (concat (map Receipt.Events (concat blocks))) = (included, failed)"
    by (cases "spec_policy (startSeq + 1) (concat (map Receipt.Events (concat blocks)))")
  have main: "if failed
           then (\<exists>s. c = Returned (Some (Wrapped ''receiveLoop: callback'' (Error ''invalid event seq''))) s)
                \<and> errCh_events c
                    = [Send (Wrapped ''receiveLoop: callback'' (Error ''invalid event seq'')), Close]
                \<and> blocks \<noteq> []
                \<and> spec_policy (startSeq + 1) (concat (map Receipt.Events (concat (butlast blocks))))
                    = (sent, False)
           else sent = included \<and> expected_seq c = startSeq + 1 + of_nat (length included)"
  proof (cases failed)
    case True
    with deliver_policy [OF d] p have e: "e = Some (Error ''invalid event seq'')" by simp
    with rd obtain s1 pre b where
      f: "c = Returned (Some (Wrapped ''receiveLoop: callback'' (Error ''invalid event seq''))) s1"
         "calls = pre @ [b]"
         "deliver (Seq (state_of c0)) (map res.Receipts pre) = (ms, None, sq1)"
      by (auto simp: c_def calls_def)
    from f(1) have ec: "errCh_events c
                    = [Send (Wrapped ''receiveLoop: callback'' (Error ''invalid event seq'')), Close]"
      by (simp add: errCh_events_def)
    from f(2) have bl: "blocks \<noteq> []" "butlast blocks = map res.Receipts pre"
      by (simp_all add: blocks_def)
    from deliver_None_policy [OF f(3)] st ms
    have "spec_policy (startSeq + 1) (concat (map Receipt.Events (concat (butlast blocks)))) = (sent, False)"
      by (simp add: bl sent_def)
    with f(1) ec bl(1) True show ?thesis by auto
  next
    case False
    with deliver_policy [OF d] p
    have r: "e = None" "delivered_events ms = included" "sq1 = startSeq + 1 + of_nat (length included)"
      by simp_all
    with rd have "Seq (state_of c) = sq1" by (simp add: c_def)
    with r ms False show ?thesis by (simp add: sent_def expected_seq_def)
  qed
  from deliver_seqs [OF d] ms obtain k where k: "seqs = seq_from (startSeq + 1) k"
    by (auto simp: seqs_def)
  note sc = seq_from_consecutive [OF k]
  from k have ex: "\<exists>k. seqs = seq_from (startSeq + 1) k" by blast
  have "(case spec_policy (startSeq + 1) (concat (map Receipt.Events (concat blocks))) of
         (included, failed) \<Rightarrow>
           if failed
           then (\<exists>s. c = Returned (Some (Wrapped ''receiveLoop: callback'' (Error ''invalid event seq''))) s)
                \<and> errCh_events c
                    = [Send (Wrapped ''receiveLoop: callback'' (Error ''invalid event seq'')), Close]
                \<and> blocks \<noteq> []
                \<and> spec_policy (startSeq + 1) (concat (map Receipt.Events (concat (butlast blocks))))
                    = (sent, False)
           else sent = included \<and> expected_seq c = startSeq + 1 + of_nat (length included))
      \<and> messages_sent c = fst (deliver (startSeq + 1) blocks)
      \<and> (\<exists>k. seqs = seq_from (startSeq + 1) k)
      \<and> (seqs \<noteq> [] \<longrightarrow> hd seqs = startSeq + 1)
      \<and> (\<forall>i. Suc i < length seqs \<longrightarrow> seqs ! Suc i = seqs ! i + 1)"
    using main p ms d ex sc by simp
  then show ?thesis
    unfolding Let_def c_def c0_def calls_def blocks_def sent_def seqs_def .
qed

text \<open>
  The theorem on \<open>example_run\<close> with \<open>startSeq = 0\<close>: once block 3 is delivered the
  events 1 and 2 are sent and the counter is 3; when block 4 follows, its event 3 is at the
  counter but its event 5 is above it, so that nothing of block 4 is sent and the stream ends
  with the error.
\<close>

theorem C2_sequence_policy_witness:
  "spec_policy (0 + 1)
       (concat (map Receipt.Events (concat (map res.Receipts
          (callback_calls example_lib example_vops example_receiver (example_run @ [DrainBody])
             (Subscribe_start example_lib example_vops example_receiver example_node 3 0))))))
     = ([example_event 1, example_event 2, example_event 3], True)
   \<and> errCh_events
        (run example_lib example_vops example_receiver (example_run @ [DrainBody])
           (Subscribe_start example_lib example_vops example_receiver example_node 3 0))
       = [Send (Wrapped ''receiveLoop: callback'' (Error ''invalid event seq'')), Close]
   \<and> delivered_events (messages_sent
        (run example_lib example_vops example_receiver (example_run @ [DrainBody])
           (Subscribe_start example_lib example_vops example_receiver example_node 3 0)))
       = [example_event 1, example_event 2]
   \<and> delivered_sequences (messages_sent
        (run example_lib example_vops example_receiver (example_run @ [DrainBody])
           (Subscribe_start example_lib example_vops example_receiver example_node 3 0)))
       = [0 + 1, 0 + 1 + 1]
   \<and> spec_policy (0 + 1)
       (concat (map Receipt.Events (concat (map res.Receipts
          (callback_calls example_lib example_vops example_receiver example_run
             (Subscribe_start example_lib example_vops example_receiver example_node 3 0))))))
     = ([example_event 1, example_event 2], False)
   \<and> delivered_events (messages_sent
        (run example_lib example_vops example_receiver example_run
           (Subscribe_start example_lib example_vops example_receiver example_node 3 0)))
       = [example_event 1, example_event 2]
   \<and> expected_seq
        (run example_lib example_vops example_receiver example_run
           (Subscribe_start example_lib example_vops example_receiver example_node 3 0))
       = 0 + 1 + of_nat (length [example_event 1, example_event 2])"
proof -
  define c0 where "c0 = Subscribe_start example_lib example_vops example_receiver example_node 3 0"
  define c where "c = run example_lib example_vops example_receiver (example_run @ [DrainBody]) c0"
  define calls where
    "calls = callback_calls example_lib example_vops example_receiver (example_run @ [DrainBody]) c0"
  define d where "d = run example_lib example_vops example_receiver example_run c0"
  define dcalls where
    "dcalls = callback_calls example_lib example_vops example_receiver example_run c0"
  have p: "spec_policy (0 + 1) (concat (map Receipt.Events (concat (map res.Receipts calls))))
             = ([example_event 1, example_event 2, example_event 3], True)"
    unfolding calls_def c0_def by code_simp
  have m: "delivered_sequences (messages_sent c) = [1, 2]"
    unfolding c_def c0_def by code_simp
  have q: "spec_policy (0 + 1) (concat (map Receipt.Events (concat (map res.Receipts dcalls))))
             = ([example_event 1, example_event 2], False)"
    unfolding dcalls_def c0_def by code_simp
  have b: "concat (map Receipt.Events (concat (butlast (map res.Receipts calls))))
             = [example_event 1, example_event 2]"
    unfolding calls_def c0_def by code_simp
  have pb: "spec_policy (0 + 1) [example_event 1, example_event 2] = (sent, False)
              \<Longrightarrow> sent = [example_event 1, example_event 2]" for sent
    by (simp add: example_event_def)
  note T = C2_sequence_policy
             [of example_lib example_vops example_receiver "example_run @ [DrainBody]" example_node 3 0,
              unfolded Let_def, folded c0_def, folded c_def calls_def]
  note U = C2_sequence_policy
             [of example_lib example_vops example_receiver example_run example_node 3 0,
              unfolded Let_def, folded c0_def, folded d_def dcalls_def]
  note T1 = conjunct1 [OF T]
  from T1 p b have t1:
    "errCh_events c = [Send (Wrapped ''receiveLoop: callback'' (Error ''invalid event seq'')), Close]"
    "spec_policy (0 + 1) [example_event 1, example_event 2] = (delivered_events (messages_sent c), False)"
    by simp_all
  from pb [OF t1(2)] have t2: "delivered_events (messages_sent c) = [example_event 1, example_event 2]" .
  from T m have t3: "delivered_sequences (messages_sent c) \<noteq> [] \<longrightarrow>
                       hd (delivered_sequences (messages_sent c)) = 0 + 1"
     "Suc 0 < length (delivered_sequences (messages_sent c)) \<longrightarrow>
        delivered_sequences (messages_sent c) ! Suc 0 = delivered_sequences (messages_sent c) ! 0 + 1"
    by blast+
  with m have t4: "delivered_sequences (messages_sent c) = [0 + 1, 0 + 1 + 1]" by simp
  note U1 = conjunct1 [OF U]
  from U1 q have u1: "delivered_events (messages_sent d) = [example_event 1, example_event 2]"
    "expected_seq d = 0 + 1 + of_nat (length [example_event 1, example_event 2])"
    by simp_all
  from p t1(1) t2 t4 q u1 show ?thesis
    unfolding c_def calls_def d_def dcalls_def c0_def by blast
qed

section \<open>The client: signing and sending\<close>

text \<open>
  Claim C5. When \<open>SignTransaction\<close> returns \<open>nil\<close>, \<open>TxHash\<close> is the SHA3-256 of the
  literal \<open>icx_sendTransaction.\<close> followed by the serialisation (with the field
  \<open>signature\<close> excluded) of the transaction, marshalled with its new timestamp, and
  \<open>Signature\<close> is the base64 encoding of what the wallet signs for that hash; and it
  returns \<open>nil\<close> with these fields whenever marshalling, serialising and signing succeed.
\<close>

theorem C5_SignTransaction:
  "(SignTransaction L w now p = (None, p1) \<longrightarrow>
      (\<exists>js bs sig.
         json_Marshal w (p\<lparr>Timestamp := NewHexInt L (go_quot now 1000)\<rparr>) = Inr js
         \<and> SerializeJSON w js [''signature'' \<mapsto> True] = Inr bs
         \<and> TxHash p1 = NewHexBytes L (SHA3Sum256 L (bytes_of ''icx_sendTransaction.'' @ bs))
         \<and> Sign w (SHA3Sum256 L (bytes_of ''icx_sendTransaction.'' @ bs)) = Inr sig
         \<and> Signature p1 = EncodeToString w sig))
   \<and> (json_Marshal w (p\<lparr>Timestamp := NewHexInt L (go_quot now 1000)\<rparr>) = Inr js
        \<and> SerializeJSON w js [''signature'' \<mapsto> True] = Inr bs
        \<and> Sign w (SHA3Sum256 L (bytes_of ''icx_sendTransaction.'' @ bs)) = Inr sig \<longrightarrow>
      fst (SignTransaction L w now p) = None
      \<and> TxHash (snd (SignTransaction L w now p))
          = NewHexBytes L (SHA3Sum256 L (bytes_of ''icx_sendTransaction.'' @ bs))
      \<and> Signature (snd (SignTransaction L w now p)) = EncodeToString w sig)"
proof (intro conjI impI)
  assume "SignTransaction L w now p = (None, p1)"
  then show "\<exists>js bs sig.
         json_Marshal w (p\<lparr>Timestamp := NewHexInt L (go_quot now 1000)\<rparr>) = Inr js
         \<and> SerializeJSON w js [''signature'' \<mapsto> True] = Inr bs
         \<and> TxHash p1 = NewHexBytes L (SHA3Sum256 L (bytes_of ''icx_sendTransaction.'' @ bs))
         \<and> Sign w (SHA3Sum256 L (bytes_of ''icx_sendTransaction.'' @ bs)) = Inr sig
         \<and> Signature p1 = EncodeToString w sig"
    by (auto simp: SignTransaction_def txSerializeExcludes_def Let_def split: sum.splits)
next
  assume a: "json_Marshal w (p\<lparr>Timestamp := NewHexInt L (go_quot now 1000)\<rparr>) = Inr js
        \<and> SerializeJSON w js [''signature'' \<mapsto> True] = Inr bs
        \<and> Sign w (SHA3Sum256 L (bytes_of ''icx_sendTransaction.'' @ bs)) = Inr sig"
  then show "fst (SignTransaction L w now p) = None"
    by (simp add: SignTransaction_def txSerializeExcludes_def Let_def)
  from a show "TxHash (snd (SignTransaction L w now p))
          = NewHexBytes L (SHA3Sum256 L (bytes_of ''icx_sendTransaction.'' @ bs))"
    by (simp add: SignTransaction_def txSerializeExcludes_def Let_def)
  from a show "Signature (snd (SignTransaction L w now p)) = EncodeToString w sig"
    by (simp add: SignTransaction_def txSerializeExcludes_def Let_def)
qed

text \<open>
  The theorem for the example wallet at 5000 ns after the epoch: the timestamp is 5, and the
  three calls succeed.
\<close>

theorem C5_SignTransaction_witness:
  "SignTransaction example_lib example_signer 5000 \<lparr>Timestamp = [], TxHash = [], Signature = []\<rparr>
     = (None,
        \<lparr>Timestamp = ''xxxxx'',
         TxHash = NewHexBytes example_lib
                    (SHA3Sum256 example_lib (bytes_of ''icx_sendTransaction.'' @ bytes_of ''xxxxx'')),
         Signature = EncodeToString example_signer
                      (rev (SHA3Sum256 example_lib (bytes_of ''icx_sendTransaction.'' @ bytes_of ''xxxxx'')))\<rparr>)
   \<and> json_Marshal example_signer
        (\<lparr>Timestamp = [], TxHash = [], Signature = []\<rparr>\<lparr>Timestamp := NewHexInt example_lib (go_quot 5000 1000)\<rparr>)
       = Inr (bytes_of ''xxxxx'')
   \<and> SerializeJSON example_signer (bytes_of ''xxxxx'') [''signature'' \<mapsto> True] = Inr (bytes_of ''xxxxx'')
   \<and> Sign example_signer (SHA3Sum256 example_lib (bytes_of ''icx_sendTransaction.'' @ bytes_of ''xxxxx''))
       = Inr (rev (SHA3Sum256 example_lib (bytes_of ''icx_sendTransaction.'' @ bytes_of ''xxxxx'')))"
proof -
  let ?p = "\<lparr>Timestamp = [], TxHash = [], Signature = []\<rparr>"
  let ?h = "SHA3Sum256 example_lib (bytes_of ''icx_sendTransaction.'' @ bytes_of ''xxxxx'')"
  have ts: "NewHexInt example_lib (go_quot 5000 1000) = ''xxxxx''"
    by (simp add: example_lib_def go_quot_def eval_nat_numeral)
  have m: "json_Marshal example_signer (?p\<lparr>Timestamp := NewHexInt example_lib (go_quot 5000 1000)\<rparr>)
             = Inr (bytes_of ''xxxxx'')"
    by (simp add: ts example_signer_def)
  have s: "SerializeJSON example_signer (bytes_of ''xxxxx'') [''signature'' \<mapsto> True] = Inr (bytes_of ''xxxxx'')"
    by (simp add: example_signer_def)
  have g: "Sign example_signer ?h = Inr (rev ?h)"
    by (simp add: example_signer_def)
  from C5_SignTransaction
         [of example_lib example_signer 5000 ?p "snd (SignTransaction example_lib example_signer 5000 ?p)"
             "bytes_of ''xxxxx''" "bytes_of ''xxxxx''" "rev ?h"]
       m s g
  have r: "fst (SignTransaction example_lib example_signer 5000 ?p) = None"
     "TxHash (snd (SignTransaction example_lib example_signer 5000 ?p)) = NewHexBytes example_lib ?h"
     "Signature (snd (SignTransaction example_lib example_signer 5000 ?p))
        = EncodeToString example_signer (rev ?h)"
    by simp_all
  have t: "Timestamp (snd (SignTransaction example_lib example_signer 5000 ?p)) = ''xxxxx''"
    using ts m s g by (simp add: SignTransaction_def Let_def txSerializeExcludes_def)
  have "SignTransaction example_lib example_signer 5000 ?p
          = (None, \<lparr>Timestamp = ''xxxxx'', TxHash = NewHexBytes example_lib ?h,
                    Signature = EncodeToString example_signer (rev ?h)\<rparr>)"
    using r t by (cases "SignTransaction example_lib example_signer 5000 ?p") auto
  with m s g show ?thesis by simp
qed

subsection \<open>\<open>SendTransactionAndGetResult\<close>\<close>

lemma txLoop_overflow: "txLoop C (Inl ErrSendFailByOverflow # sends) = txLoop C sends"
  by (simp add: SendTransaction_def)

lemma txLoop_accepted: "txLoop C (Inr h # sends) = Some (Done (Inl h))"
  by (simp add: SendTransaction_def)

lemma txLoop_other_error:
  "err \<noteq> ErrSendFailByOverflow \<Longrightarrow> (\<forall>m. err \<noteq> JsonrpcError (JsonrpcErrorCodeSystem C) m) \<Longrightarrow>
     txLoop C (Inl err # sends) = Some (Done (Inr err))"
  by (cases err) (auto simp: SendTransaction_def)

lemma txLoop_duplicate:
  "5 \<le> length msg \<Longrightarrow> ParseInt C (take 4 (drop 1 msg)) = (2000, None) \<Longrightarrow>
     txLoop C (Inl (JsonrpcError (JsonrpcErrorCodeSystem C) msg) # sends) = Some Panic"
  by (simp add: SendTransaction_def)

lemma txrLoop_retry:
  "code = JsonrpcErrorCodePending C \<or> code = JsonrpcErrorCodeExecuting C \<Longrightarrow>
     txrLoop C (Inl (JsonrpcError code m) # polls) = txrLoop C polls"
  by (auto simp: GetTransactionResult_def)

lemma txrLoop_result: "txrLoop C (Inr tr # polls) = Some (Some tr, None)"
  by (simp add: GetTransactionResult_def)

text \<open>
  Claim C6, where the code departs from it. A send that fails with
  \<open>ErrSendFailByOverflow\<close> is submitted again; a send error that is neither that nor a
  system error is returned to the caller; once a hash is accepted, the result is asked for
  again while the node answers \<open>Pending\<close> or \<open>Executing\<close>, and the first other answer is
  returned. But when \<open>icx_sendTransaction\<close> fails with the system error whose message
  carries the sub-code 2000, \<open>SendTransaction\<close> has returned \<open>nil\<close> with the error, and
  \<open>thp.Hash = *txh\<close> dereferences it: the call panics instead of going on to poll for the
  result, whatever the node would answer next.
\<close>

theorem C6_duplicate_submit_panics:
  "SendTransactionAndGetResult C (Inl ErrSendFailByOverflow # sends) polls
     = SendTransactionAndGetResult C sends polls
   \<and> (5 \<le> length msg \<and> ParseInt C (take 4 (drop 1 msg)) = (2000, None) \<longrightarrow>
        SendTransactionAndGetResult C (Inl (JsonrpcError (JsonrpcErrorCodeSystem C) msg) # sends) polls
          = Some Panic)
   \<and> (err \<noteq> ErrSendFailByOverflow \<and> (\<forall>m. err \<noteq> JsonrpcError (JsonrpcErrorCodeSystem C) m) \<longrightarrow>
        SendTransactionAndGetResult C (Inl err # sends) polls = Some (Done ([], None, Some err)))
   \<and> (code = JsonrpcErrorCodePending C \<or> code = JsonrpcErrorCodeExecuting C \<longrightarrow>
        SendTransactionAndGetResult C (Inr txh # sends) (Inl (JsonrpcError code m) # polls)
          = SendTransactionAndGetResult C (Inr txh # sends) polls)
   \<and> SendTransactionAndGetResult C (Inr txh # sends) (Inr tr # polls) = Some (Done (txh, Some tr, None))"
proof (intro conjI impI)
  show "SendTransactionAndGetResult C (Inl ErrSendFailByOverflow # sends) polls
     = SendTransactionAndGetResult C sends polls"
    by (simp only: SendTransactionAndGetResult_def txLoop_overflow)
next
  assume "5 \<le> length msg \<and> ParseInt C (take 4 (drop 1 msg)) = (2000, None)"
  then have "txLoop C (Inl (JsonrpcError (JsonrpcErrorCodeSystem C) msg) # sends) = Some Panic"
    by (simp add: SendTransaction_def)
  then show "SendTransactionAndGetResult C (Inl (JsonrpcError (JsonrpcErrorCodeSystem C) msg) # sends) polls
       = Some Panic"
    by (simp add: SendTransactionAndGetResult_def)
next
  assume "err \<noteq> ErrSendFailByOverflow \<and> (\<forall>m. err \<noteq> JsonrpcError (JsonrpcErrorCodeSystem C) m)"
  then have "txLoop C (Inl err # sends) = Some (Done (Inr err))"
    by (intro txLoop_other_error) blast+
  then show "SendTransactionAndGetResult C (Inl err # sends) polls = Some (Done ([], None, Some err))"
    by (simp add: SendTransactionAndGetResult_def)
next
  assume "code = JsonrpcErrorCodePending C \<or> code = JsonrpcErrorCodeExecuting C"
  then have "txrLoop C (Inl (JsonrpcError code m) # polls) = txrLoop C polls"
    by (rule txrLoop_retry)
  then show "SendTransactionAndGetResult C (Inr txh # sends) (Inl (JsonrpcError code m) # polls)
          = SendTransactionAndGetResult C (Inr txh # sends) polls"
    by (simp only: SendTransactionAndGetResult_def txLoop_accepted)
next
  show "SendTransactionAndGetResult C (Inr txh # sends) (Inr tr # polls) = Some (Done (txh, Some tr, None))"
    by (simp only: SendTransactionAndGetResult_def txLoop_accepted txrLoop_result) simp
qed

text \<open>
  The theorem for a node that answers the first submission with the duplicate error, for
  one that answers it with another error, and for one that accepts the second submission
  and has the result at the second poll.
\<close>

theorem C6_duplicate_submit_panics_witness:
  "5 \<le> length ''E2000:duplicate transaction''
   \<and> ParseInt example_consts (take 4 (drop 1 ''E2000:duplicate transaction'')) = (2000, None)
   \<and> SendTransactionAndGetResult example_consts
        [Inl (JsonrpcError (JsonrpcErrorCodeSystem example_consts) ''E2000:duplicate transaction'')]
        [Inr ''result'']
       = Some Panic
   \<and> Error ''refused'' \<noteq> ErrSendFailByOverflow
   \<and> SendTransactionAndGetResult example_consts [Inl (Error ''refused'')] [Inr ''result'']
       = Some (Done ([], None, Some (Error ''refused'')))
   \<and> SendTransactionAndGetResult example_consts [Inl ErrSendFailByOverflow, Inr ''hash'']
        [Inl (JsonrpcError (JsonrpcErrorCodePending example_consts) ''pending''), Inr ''result'']
       = Some (Done (''hash'', Some ''result'', None))"
proof -
  have a: "5 \<le> length ''E2000:duplicate transaction''
           \<and> ParseInt example_consts (take 4 (drop 1 ''E2000:duplicate transaction'')) = (2000, None)"
    by (simp add: example_consts_def)
  have b: "Error ''refused'' \<noteq> ErrSendFailByOverflow
           \<and> (\<forall>m. Error ''refused'' \<noteq> JsonrpcError (JsonrpcErrorCodeSystem example_consts) m)"
    by simp
  note T = C6_duplicate_submit_panics
             [of example_consts "[]" "[Inr ''result'']" "''E2000:duplicate transaction''"
                 "Error ''refused''"]
  from T a have t1: "SendTransactionAndGetResult example_consts
        [Inl (JsonrpcError (JsonrpcErrorCodeSystem example_consts) ''E2000:duplicate transaction'')]
        [Inr ''result''] = Some Panic"
    by blast
  from T b have t2: "SendTransactionAndGetResult example_consts [Inl (Error ''refused'')] [Inr ''result'']
       = Some (Done ([], None, Some (Error ''refused'')))"
    by blast
  note U1 = C6_duplicate_submit_panics
             [of example_consts "[Inr ''hash'']"
                 "[Inl (JsonrpcError (JsonrpcErrorCodePending example_consts) ''pending''), Inr ''result'']"]
  from U1 have u1: "SendTransactionAndGetResult example_consts [Inl ErrSendFailByOverflow, Inr ''hash'']
        [Inl (JsonrpcError (JsonrpcErrorCodePending example_consts) ''pending''), Inr ''result'']
       = SendTransactionAndGetResult example_consts [Inr ''hash'']
        [Inl (JsonrpcError (JsonrpcErrorCodePending example_consts) ''pending''), Inr ''result'']"
    by blast
  note U2 = C6_duplicate_submit_panics
             [of example_consts "[]" "[Inr ''result'']" _ _ "JsonrpcErrorCodePending example_consts"
                 "''hash''" "''pending''"]
  from U2 have u2: "SendTransactionAndGetResult example_consts [Inr ''hash'']
        [Inl (JsonrpcError (JsonrpcErrorCodePending example_consts) ''pending''), Inr ''result'']
       = SendTransactionAndGetResult example_consts [Inr ''hash''] [Inr ''result'']"
    by blast
  note U3 = C6_duplicate_submit_panics
             [of example_consts "[]" "[]" _ _ _ "''hash''" _ "''result''"]
  from U3 have u3: "SendTransactionAndGetResult example_consts [Inr ''hash''] [Inr ''result'']
       = Some (Done (''hash'', Some ''result'', None))"
    by blast
  from a b t1 t2 u1 u2 u3 show ?thesis by simp
qed

section \<open>The verifier\<close>

text \<open>
  Claim C10. \<open>syncVerifier\<close> returns \<open>nil\<close> at once, with no JSON-RPC call and the
  verifier as it was, when the target height is \<open>vr.Next()\<close>; and it returns the error
  \<open>invalid target height\<close>, again with no call and the verifier as it was, when
  \<open>vr.Next()\<close> is above the target. Neither depends on the node's answers.
\<close>

theorem C10_syncVerifier_precheck:
  "(target = Next_height v \<longrightarrow> syncVerifier L V conc ns v target = Some (None, v, []))
   \<and> (Next_height v > target \<longrightarrow>
        syncVerifier L V conc ns v target = Some (Some (Error ''invalid target height''), v, []))"
proof (intro conjI impI)
  assume "target = Next_height v"
  then show "syncVerifier L V conc ns v target = Some (None, v, [])"
    by (simp add: syncVerifier_def)
next
  assume "Next_height v > target"
  then show "syncVerifier L V conc ns v target = Some (Some (Error ''invalid target height''), v, [])"
    by (simp add: syncVerifier_def)
qed

text \<open>The theorem for a verifier at height 100, with the targets 100 and 99.\<close>

theorem C10_syncVerifier_precheck_witness:
  "Next_height example_verifier = 100
   \<and> syncVerifier example_lib example_vops 3 [example_node] example_verifier 100
       = Some (None, example_verifier, [])
   \<and> Next_height example_verifier > 99
   \<and> syncVerifier example_lib example_vops 3 [example_node] example_verifier 99
       = Some (Some (Error ''invalid target height''), example_verifier, [])"
  using C10_syncVerifier_precheck [of 100 example_verifier example_lib example_vops 3 "[example_node]"]
        C10_syncVerifier_precheck [of 99 example_verifier example_lib example_vops 3 "[example_node]"]
  by (simp add: Next_height_def example_verifier_def)

subsection \<open>The validators of the cache\<close>

lemma getValidatorsByHash_sound:
  "getValidatorsByHash L n h = Inr vs \<Longrightarrow>
     \<exists>data. GetDataByHash n (NewHexBytes L h) = Inr data \<and> SHA3Sum256 L data = h
            \<and> Unmarshal_Validators L data = Inr vs"
  by (auto simp: getValidatorsByHash_def split: sum.splits if_splits)

lemma getValidatorsByHash_entry:
  "getValidatorsByHash L n h = Inr vs \<Longrightarrow> entry_sound L h vs"
  using getValidatorsByHash_sound [of L n h vs] by (auto simp: entry_sound_def)

lemma getValidatorsByHash_mismatch:
  "GetDataByHash n (NewHexBytes L h) = Inr data \<Longrightarrow> SHA3Sum256 L data \<noteq> h \<Longrightarrow>
     getValidatorsByHash L n h = Inl (Error ''invalid data'')"
  by (auto simp: getValidatorsByHash_def)

lemma newVerifer_cache:
  assumes "newVerifer L n V vo = Inr v"
  shows "cache_sound L v"
proof -
  from assms obtain vs where
    g: "getValidatorsByHash L n (ValidatorsHash vo) = Inr vs" and
    v: "validators v = [ValidatorsHash vo \<mapsto> vs]"
    by (auto simp: newVerifer_def Let_def split: sum.splits prod.splits option.splits if_splits)
  from getValidatorsByHash_entry [OF g] v show ?thesis
    by (auto simp: cache_sound_def split: if_splits)
qed

lemma Update_spec_cache:
  assumes "cache_sound L v0"
    and "nvs = [] \<or> entry_sound L (NextValidatorsHash header) nvs"
  shows "cache_sound L (Update_spec v0 h header nvs)"
  using assms by (auto simp: cache_sound_def Update_spec_def split: if_splits)

lemma fetch_votes_validators:
  assumes "fetch_votes L n (Some v0) header r = (None, r2)" and "res.NextValidators r = []"
  shows "res.Header r2 = res.Header r \<and> res.Height r2 = res.Height r
         \<and> (res.NextValidators r2 = [] \<or>
             getValidatorsByHash L n (NextValidatorsHash header) = Inr (res.NextValidators r2))"
  using assms by (auto simp: fetch_votes_def split: sum.splits if_splits)

lemma fetch_task_validators:
  assumes "fetch_task L n (Some v0) f q = Done (None, r)"
  shows "\<exists>header. res.Header r = Some header
           \<and> (res.NextValidators r = [] \<or>
               getValidatorsByHash L n (NextValidatorsHash header) = Inr (res.NextValidators r))"
proof -
  define r0 where "r0 = \<lparr>res.Height = height q, res.Hash = [], res.Header = None, res.Votes = [],
                res.NextValidators = [], res.Receipts = []\<rparr>"
  from assms obtain hv header r2 where
    fv: "fetch_votes L n (Some v0) header (r0\<lparr>res.Hash := hv, res.Header := Some header\<rparr>) = (None, r2)"
    and r: "res.Header r = res.Header r2" "res.NextValidators r = res.NextValidators r2"
    unfolding fetch_task_def Let_def r0_def [symmetric]
    by (auto split: prod.splits sum.splits option.splits exec.splits if_splits)
  from fetch_votes_validators [OF fv] have
    "res.Header r2 = Some header \<and> (res.NextValidators r2 = [] \<or>
             getValidatorsByHash L n (NextValidatorsHash header) = Inr (res.NextValidators r2))"
    by (simp add: r0_def)
  with r show ?thesis by auto
qed

lemma sync_task_validators:
  assumes "sync_task L n v0 h = ((None, r), calls)"
  shows "\<exists>header. sync_res.Header r = Some header
           \<and> (sync_res.NextValidators r = [] \<or>
               getValidatorsByHash L n (NextValidatorsHash header) = Inr (sync_res.NextValidators r))"
  using assms
  by (auto simp: sync_task_def Let_def split: sum.splits if_splits)


section \<open>The receive loop\<close>





text \<open>
  Claim C1, where the code departs from it. The loop of line 373 never compares the height
  of the block result it has in hand with \<open>next\<close>; and \<open>reconnect()\<close>, which the
  subscription goroutine calls when \<open>MonitorBlock\<close> has failed, receives from \<open>brch\<close>.
  In the run \<open>overtaken_run\<close> from height 3, the goroutine receives the result of block 3
  and the orchestrator the result of block 4: the callback is called with block 4 alone,
  and \<open>next\<close> becomes 4, so that block 3 is never delivered. The subscription then starts
  again from 4, and the callback is called with block 4 a second time: the receipt of
  height 4 and index 0 is sent twice.
\<close>

theorem C1_block_result_taken_by_reconnect:
  "map res.Height
     (callback_calls example_lib example_vops example_receiver overtaken_run
        (Subscribe_start example_lib example_vops example_receiver example_node 3 0)) = [4]
   \<and> next_height
        (run example_lib example_vops example_receiver overtaken_run
           (Subscribe_start example_lib example_vops example_receiver example_node 3 0)) = 4
   \<and> errCh_events
        (run example_lib example_vops example_receiver overtaken_run_resumed
           (Subscribe_start example_lib example_vops example_receiver example_node 3 0)) = []
   \<and> map res.Height
        (callback_calls example_lib example_vops example_receiver overtaken_run_resumed
           (Subscribe_start example_lib example_vops example_receiver example_node 3 0)) = [4, 4]
   \<and> next_height
        (run example_lib example_vops example_receiver overtaken_run_resumed
           (Subscribe_start example_lib example_vops example_receiver example_node 3 0)) = 5
   \<and> messages_sent
        (run example_lib example_vops example_receiver overtaken_run_resumed
           (Subscribe_start example_lib example_vops example_receiver example_node 3 0))
       = [\<lparr>Message.Receipts =
             [\<lparr>Receipt.Index = 0, Receipt.Height = 4, Receipt.Events = [example_event 1]\<rparr>]\<rparr>,
          \<lparr>Message.Receipts = [\<lparr>Receipt.Index = 0, Receipt.Height = 4, Receipt.Events = []\<rparr>]\<rparr>]"
  by code_simp

lemma run_req_accepts: "task k = Done (None, r) \<Longrightarrow> run_req task m k = Done (Some r)"
  by (cases m) auto

text \<open>
  Claim C8, where the code departs from it. When \<open>GetProofForEvents\<close> returns a list of
  proofs that is not one longer than the list of events asked for, the task assigns
  \<open>errors.Wrapf(q.err, ...)\<close> to \<open>q.err\<close>, and \<open>q.err\<close> is \<open>nil\<close> there: the task
  returns with no error, and with the receipts gathered before that receipt. The collector
  takes the result of a run that left no error as it is, with no retry. So in the run
  \<open>short_run\<close>, block 3, whose event 1 was notified, is delivered with no receipt: no
  message is sent, no error is raised, and \<open>next\<close> moves on to 4.
\<close>

theorem C8_short_proofs_accepted:
  "(i < length events0 \<and> GetProofForEvents n index bh (events0 ! i) = Inr proofs
      \<and> length proofs \<noteq> 1 + length (events0 ! i) \<longrightarrow>
      fetch_receipts L n f None h bh rh events0 i (index # rest) receipts = Done (None, receipts))
   \<and> (task 0 = Done (None, res0) \<longrightarrow> run_req task RPCCallRetry 0 = Done (Some res0))
   \<and> map res.Receipts
        (callback_calls example_lib example_vops example_receiver short_run
           (Subscribe_start example_lib example_vops example_receiver example_node 3 0)) = [[]]
   \<and> messages_sent
        (run example_lib example_vops example_receiver short_run
           (Subscribe_start example_lib example_vops example_receiver example_node 3 0)) = []
   \<and> errCh_events
        (run example_lib example_vops example_receiver short_run
           (Subscribe_start example_lib example_vops example_receiver example_node 3 0)) = []
   \<and> next_height
        (run example_lib example_vops example_receiver short_run
           (Subscribe_start example_lib example_vops example_receiver example_node 3 0)) = 4"
proof (intro conjI impI)
  assume "i < length events0 \<and> GetProofForEvents n index bh (events0 ! i) = Inr proofs
      \<and> length proofs \<noteq> 1 + length (events0 ! i)"
  then show "fetch_receipts L n f None h bh rh events0 i (index # rest) receipts = Done (None, receipts)"
    by (simp add: Wrapf_def)
next
  assume "task 0 = Done (None, res0)"
  then show "run_req task RPCCallRetry 0 = Done (Some res0)" by (rule run_req_accepts)
next
  show "map res.Receipts
        (callback_calls example_lib example_vops example_receiver short_run
           (Subscribe_start example_lib example_vops example_receiver example_node 3 0)) = [[]]"
    by code_simp
next
  show "messages_sent
        (run example_lib example_vops example_receiver short_run
           (Subscribe_start example_lib example_vops example_receiver example_node 3 0)) = []"
    by code_simp
next
  show "errCh_events
        (run example_lib example_vops example_receiver short_run
           (Subscribe_start example_lib example_vops example_receiver example_node 3 0)) = []"
    by code_simp
next
  show "next_height
        (run example_lib example_vops example_receiver short_run
           (Subscribe_start example_lib example_vops example_receiver example_node 3 0)) = 4"
    by code_simp
qed

text \<open>
  The theorem for the request of block 3 on \<open>short_node\<close>: one proof comes back where two
  were due; the loop over the receipt indexes and the whole task leave no error, and the
  collector keeps the task's result, which has no receipt.
\<close>

theorem C8_short_proofs_accepted_witness:
  "(0 :: nat) < length [[''x'']]
   \<and> GetProofForEvents short_node '''' [] ([[''x'']] ! 0) = Inr [[[9]]]
   \<and> length [[[9 :: 8 word]]] \<noteq> 1 + length ([[''x'']] ! 0)
   \<and> fetch_receipts example_lib short_node example_filter None 3 [] [7] [[''x'']] 0 [''''] []
       = Done (None, [])
   \<and> fetch_task example_lib short_node None example_filter
        \<lparr>height = 3, hash = [], indexes = [['''']], events = [[[''x'']]], retry = RPCCallRetry\<rparr>
       = Done (None, \<lparr>res.Height = 3, res.Hash = [],
            res.Header = Some \<lparr>NextValidatorsHash = [7], Result = [7], serialized = [7]\<rparr>,
            res.Votes = [], res.NextValidators = [], res.Receipts = []\<rparr>)
   \<and> run_req (\<lambda>k. fetch_task example_lib short_node None example_filter
                  \<lparr>height = 3, hash = [], indexes = [['''']], events = [[[''x'']]], retry = RPCCallRetry\<rparr>)
        RPCCallRetry 0
       = Done (Some \<lparr>res.Height = 3, res.Hash = [],
            res.Header = Some \<lparr>NextValidatorsHash = [7], Result = [7], serialized = [7]\<rparr>,
            res.Votes = [], res.NextValidators = [], res.Receipts = []\<rparr>)"
  using C8_short_proofs_accepted [of 0 "[[''x'']]" short_node "''''" "[]" "[[[9]]]" example_lib example_filter 3 "[7]" "[]" "[]"
          "\<lambda>k. fetch_task example_lib short_node None example_filter
                  \<lparr>height = 3, hash = [], indexes = [['''']], events = [[[''x'']]], retry = RPCCallRetry\<rparr>"
          "\<lparr>res.Height = 3, res.Hash = [],
            res.Header = Some \<lparr>NextValidatorsHash = [7], Result = [7], serialized = [7]\<rparr>,
            res.Votes = [], res.NextValidators = [], res.Receipts = []\<rparr>"]
  by code_simp

subsection \<open>The receipts of a message\<close>





lemma run_req_task:
  "run_req task m k = Done (Some r) \<Longrightarrow> \<exists>j. task j = Done (None, r)"
proof (induction m arbitrary: k)
  case 0
  then have "task k = Done (None, r)"
    by (auto split: exec.splits prod.splits option.splits)
  then show ?case by blast
next
  case (Suc m)
  show ?case
  proof (cases "task k")
    case Panic
    with Suc.prems show ?thesis by simp
  next
    case (Done p)
    obtain e r1 where p: "p = (e, r1)" by (cases p)
    show ?thesis
    proof (cases e)
      case None
      with Done p Suc.prems have "task k = Done (None, r)" by simp
      then show ?thesis by blast
    next
      case (Some err)
      with Done p Suc.prems have "run_req task m (Suc k) = Done (Some r)" by simp
      from Suc.IH [OF this] show ?thesis .
    qed
  qed
qed

lemma collect_task:
  "collect task qs = Done brs \<Longrightarrow> Some r \<in> set brs \<Longrightarrow> \<exists>q j. task q j = Done (None, r)"
proof (induction qs arbitrary: brs)
  case Nil
  then show ?case by simp
next
  case (Cons q qs)
  from Cons.prems(1) obtain b bs where
    b: "run_req (task q) (retry q) 0 = Done b" and bs: "collect task qs = Done bs" and
    brs: "brs = b # bs"
    by (auto split: exec.splits)
  from Cons.prems(2) brs consider "b = Some r" | "Some r \<in> set bs" by auto
  then show ?case
  proof cases
    case 1
    with b run_req_task [of "task q" "retry q" 0 r] show ?thesis by blast
  next
    case 2
    from Cons.IH [OF bs 2] show ?thesis .
  qed
qed

lemma forward_subset: "br \<in> set (forward nxt brs) \<Longrightarrow> Some br \<in> set brs"
proof -
  define xs where "xs = sort_key res.Height (map the (filter (\<lambda>v. v \<noteq> None) brs))"
  assume "br \<in> set (forward nxt brs)"
  then have "br \<in> set (map snd (filter (\<lambda>(i, d). res.Height d = nxt + int i) (enumerate 0 xs)))"
    by (simp only: forward_def xs_def)
  then have "br \<in> snd ` set (enumerate 0 xs)" by auto
  then have "br \<in> set (map snd (enumerate 0 xs))" by (simp only: set_map)
  then have "br \<in> set xs" by (simp only: map_snd_enumerate)
  then have "br \<in> set (map the (filter (\<lambda>v. v \<noteq> None) brs))" by (simp add: xs_def)
  then show ?thesis by auto
qed

lemma on_notification_held:
  assumes "\<forall>br\<in>set (brch s). P br"
    and "\<And>q k res1. fetch_task L (nodes k) (vr s) (logFilter r) q = Done (None, res1) \<Longrightarrow> P res1"
  shows "\<forall>br\<in>set (held (on_notification L r nodes s)). P br"
proof (cases "bnch s")
  case Nil
  with assms(1) show ?thesis by (simp add: on_notification_def)
next
  case (Cons bn waiting)
  show ?thesis
  proof (cases "fill L (loop_state.next s) (SyncConcurrency (opts r)) bn waiting []")
    case FillPanic
    with Cons show ?thesis by (simp add: on_notification_def)
  next
    case (FillReconnect left)
    with Cons show ?thesis by (simp add: on_notification_def reconnect_def)
  next
    case (FillDone qch left)
    show ?thesis
    proof (cases "collect (\<lambda>q k. fetch_task L (nodes k) (vr s) (logFilter r) q) qch")
      case Panic
      with Cons FillDone show ?thesis by (simp add: on_notification_def)
    next
      case (Done brs)
      have "P br" if "br \<in> set (forward (loop_state.next s) brs)" for br
      proof -
        from forward_subset [OF that] collect_task [OF Done]
        obtain q j where "fetch_task L (nodes j) (vr s) (logFilter r) q = Done (None, br)" by blast
        then show ?thesis by (rule assms(2))
      qed
      with assms(1) Cons FillDone Done show ?thesis by (auto simp: on_notification_def)
    qed
  qed
qed

lemma on_reconnect_held:
  "\<forall>br\<in>set (brch s). P br \<Longrightarrow> \<forall>br\<in>set (held (on_reconnect L V r ns s)). P br"
  by (auto simp: on_reconnect_def split: option.splits prod.splits)

lemma deliver_block_held:
  "\<forall>br\<in>set (brch s). P br \<Longrightarrow> \<forall>b\<in>set (held (deliver_block s br)). P b"
  by (auto simp: deliver_block_def Let_def split: sum.splits prod.splits list.splits)

lemma drain_body_held:
  "\<forall>br\<in>set (brch s). P br \<Longrightarrow> \<forall>b\<in>set (held (drain_body V s br)). P b"
proof -
  assume a: "\<forall>br\<in>set (brch s). P br"
  then have "\<forall>b\<in>set (held (deliver_block (s\<lparr>vr := x\<rparr>) br)). P b" for x
    by (intro deliver_block_held) simp
  with a deliver_block_held [of s P br] show ?thesis
    by (auto simp: drain_body_def reconnect_def split: option.splits prod.splits)
qed

lemma step_held:
  assumes "\<forall>br\<in>set (held c). receipts_ok br"
    and "\<And>s nodes. \<forall>br\<in>set (brch s). receipts_ok br \<Longrightarrow>
           \<forall>br\<in>set (held (on_notification L r nodes s)). receipts_ok br"
  shows "\<forall>br\<in>set (held (step L V r a c)). receipts_ok br"
proof (cases c)
  case (Running p s)
  show ?thesis
  proof (cases p)
    case AtSelect
    with Running assms(1) have b: "\<forall>br\<in>set (brch s). receipts_ok br" by simp
    from b have n: "\<forall>br\<in>set (held (on_notification L r nodes s)). receipts_ok br" for nodes
      by (rule assms(2))
    from b have rc: "\<forall>br\<in>set (held (on_reconnect L V r ns s)). receipts_ok br" for ns
      by (rule on_reconnect_held)
    from Running AtSelect b n rc show ?thesis
      by (cases a) (auto split: list.splits)
  next
    case (InDrain br)
    with Running assms(1) have b: "\<forall>br\<in>set (brch s). receipts_ok br" "receipts_ok br" by simp_all
    from b(1) have d: "\<forall>b\<in>set (held (drain_body V s br)). receipts_ok b"
      by (rule drain_body_held)
    from Running InDrain b d show ?thesis
      by (cases a) (auto split: list.splits)
  qed
qed (use assms(1) in auto)









section \<open>The validator cache along a run\<close>

lemma fetch_votes_vals:
  assumes "fetch_votes L n vo header r = (None, r2)"
    and "res.NextValidators r = []" and "res.Header r = Some header"
  shows "vals_ok L r2"
proof (cases vo)
  case None
  with assms show ?thesis by (simp add: fetch_votes_def vals_ok_def)
next
  case (Some v0)
  from fetch_votes_validators [OF assms(1) [unfolded Some] assms(2)] assms(3)
  show ?thesis by (auto simp: vals_ok_def dest: getValidatorsByHash_entry)
qed

lemma fetch_task_vals:
  assumes "fetch_task L n vo f q = Done (None, r)"
  shows "vals_ok L r"
proof -
  define r0 where "r0 = \<lparr>res.Height = height q, res.Hash = [], res.Header = None, res.Votes = [],
                res.NextValidators = [], res.Receipts = []\<rparr>"
  from assms obtain hv header r2 where
    fv: "fetch_votes L n vo header (r0\<lparr>res.Hash := hv, res.Header := Some header\<rparr>) = (None, r2)"
    and r: "res.Header r = res.Header r2" "res.NextValidators r = res.NextValidators r2"
    unfolding fetch_task_def Let_def r0_def [symmetric]
    by (auto split: prod.splits sum.splits option.splits exec.splits if_splits)
  from fetch_votes_vals [OF fv] have "vals_ok L r2" by (simp add: r0_def)
  with r show ?thesis by (simp add: vals_ok_def)
qed

lemma sync_task_vals:
  "sync_task L n v0 h = ((None, sr), calls) \<Longrightarrow> sync_vals_ok L sr"
  using sync_task_validators [of L n v0 h sr calls]
  by (auto simp: sync_vals_ok_def dest: getValidatorsByHash_entry)

lemma sync_batch_vals:
  "sync_batch L n v conc = (sres, calls) \<Longrightarrow> \<forall>sr\<in>set sres. sync_vals_ok L sr"
proof
  fix sr
  assume b: "sync_batch L n v conc = (sres, calls)" and "sr \<in> set sres"
  then obtain k where "fst (sync_task L n v (Next_height v + int k)) = (None, sr)"
    by (auto simp: sync_batch_def Let_def prod_eq_iff)
  then have "sync_task L n v (Next_height v + int k)
               = ((None, sr), snd (sync_task L n v (Next_height v + int k)))"
    by (simp add: prod_eq_iff)
  then show "sync_vals_ok L sr" by (rule sync_task_vals)
qed

lemma Update_sound:
  assumes "Update_as_spec V" and "cache_sound L v"
    and "header = Some bh"
    and "nvs = [] \<or> entry_sound L (NextValidatorsHash bh) nvs"
    and "Update V v header nvs = (e, v1)"
  shows "cache_sound L v1"
proof -
  from assms(1) consider
      (fail) e1 where "Update V v header nvs = (Some e1, v)"
    | (ok) ht b where "header = Some b" "Update V v header nvs = (None, Update_spec v ht b nvs)"
    unfolding Update_as_spec_def by blast
  then show ?thesis
  proof cases
    case fail
    with assms(2,5) show ?thesis by simp
  next
    case ok
    with assms(3,5) have "v1 = Update_spec v ht bh nvs" by simp
    with assms(2,4) show ?thesis by (simp add: Update_spec_cache)
  qed
qed

lemma sync_apply_sound:
  assumes "Update_as_spec V"
  shows "cache_sound L v \<Longrightarrow> \<forall>sr\<in>set rs. sync_vals_ok L sr \<Longrightarrow> sync_apply V v rs = (e, v1) \<Longrightarrow>
         cache_sound L v1"
proof (induction rs arbitrary: v)
  case Nil
  then show ?case by simp
next
  case (Cons sr rs)
  from Cons.prems(2) have rest: "\<forall>x\<in>set rs. sync_vals_ok L x" and ok: "sync_vals_ok L sr" by simp_all
  show ?case
  proof (cases "Next_height v = sync_res.Height sr")
    case False
    with Cons.prems(3) have "sync_apply V v rs = (e, v1)" by simp
    from Cons.IH [OF Cons.prems(1) rest this] show ?thesis .
  next
    case True
    obtain okv errv where vf: "Verify V v (sync_res.Header sr) (sync_res.Votes sr) = (okv, errv)"
      by (cases "Verify V v (sync_res.Header sr) (sync_res.Votes sr)")
    obtain ue v2 where up: "Update V v (sync_res.Header sr) (sync_res.NextValidators sr) = (ue, v2)"
      by (cases "Update V v (sync_res.Header sr) (sync_res.NextValidators sr)")
    from ok obtain bh where bh: "sync_res.Header sr = Some bh"
      "sync_res.NextValidators sr = [] \<or> entry_sound L (NextValidatorsHash bh) (sync_res.NextValidators sr)"
      by (auto simp: sync_vals_ok_def)
    from Update_sound [OF assms Cons.prems(1) bh up] have v2: "cache_sound L v2" .
    from Cons.prems(3) True vf up consider
        "v1 = v" | "v1 = v2" | "sync_apply V v2 rs = (e, v1)"
      by (auto split: option.splits if_splits)
    then show ?thesis
    proof cases
      case 1
      with Cons.prems(1) show ?thesis by simp
    next
      case 2
      with v2 show ?thesis by simp
    next
      case 3
      from Cons.IH [OF v2 rest 3] show ?thesis .
    qed
  qed
qed

lemma sync_loop_sound:
  assumes "Update_as_spec V"
  shows "cache_sound L v \<Longrightarrow> sync_loop L V conc target ns v calls = Some (e, v1, c) \<Longrightarrow>
         cache_sound L v1"
proof (induction ns arbitrary: v calls)
  case Nil
  then show ?case by (simp split: if_splits)
next
  case (Cons n ns)
  show ?case
  proof (cases "Next_height v < target")
    case False
    with Cons.prems show ?thesis by simp
  next
    case True
    obtain sres bc where b: "sync_batch L n v conc = (sres, bc)" by (cases "sync_batch L n v conc")
    obtain ae v2 where a: "sync_apply V v sres = (ae, v2)" by (cases "sync_apply V v sres")
    from sync_apply_sound [OF assms Cons.prems(1) sync_batch_vals [OF b] a]
    have v2: "cache_sound L v2" .
    from Cons.prems(2) True b a consider
        "v1 = v2" | "sync_loop L V conc target ns v2 (calls @ bc) = Some (e, v1, c)"
      by (auto split: option.splits)
    then show ?thesis
    proof cases
      case 1
      with v2 show ?thesis by simp
    next
      case 2
      from Cons.IH [OF v2 2] show ?thesis .
    qed
  qed
qed

lemma syncVerifier_sound:
  "Update_as_spec V \<Longrightarrow> cache_sound L v \<Longrightarrow> syncVerifier L V conc ns v target = Some (e, v1, c) \<Longrightarrow>
     cache_sound L v1"
  by (auto simp: syncVerifier_def dest: sync_loop_sound split: if_splits)

lemma on_notification_vr: "vr (state_of (on_notification L r nodes s)) = vr s"
  by (auto simp: on_notification_def reconnect_def split: list.splits fill_result.splits exec.splits)

lemma deliver_block_vr: "vr (state_of (deliver_block s br)) = vr s"
  by (auto simp: deliver_block_def Let_def split: sum.splits prod.splits list.splits)

lemma on_reconnect_sound:
  assumes "Update_as_spec V" and "\<forall>v. vr s = Some v \<longrightarrow> cache_sound L v"
  shows "\<forall>v. vr (state_of (on_reconnect L V r ns s)) = Some v \<longrightarrow> cache_sound L v"
proof (cases "vr s")
  case None
  then show ?thesis by (simp add: on_reconnect_def)
next
  case (Some v0)
  with assms(2) have s0: "cache_sound L v0" by simp
  show ?thesis
  proof (cases "syncVerifier L V (SyncConcurrency (opts r)) ns v0 (loop_state.next s)")
    case None
    with Some s0 show ?thesis by (simp add: on_reconnect_def)
  next
    case sv: (Some t)
    obtain e v1 c where t: "t = (e, v1, c)" by (cases t)
    from syncVerifier_sound [OF assms(1) s0 sv [unfolded t]] have "cache_sound L v1" .
    with Some sv t show ?thesis by (cases e) (simp_all add: on_reconnect_def)
  qed
qed

lemma drain_body_sound:
  assumes "Update_as_spec V" and "\<forall>v. vr s = Some v \<longrightarrow> cache_sound L v" and "vals_ok L br"
  shows "\<forall>v. vr (state_of (drain_body V s br)) = Some v \<longrightarrow> cache_sound L v"
proof (cases "vr s")
  case None
  then show ?thesis by (simp add: drain_body_def deliver_block_vr)
next
  case (Some v0)
  with assms(2) have s0: "cache_sound L v0" by simp
  obtain okv errv where vf: "Verify V v0 (res.Header br) (res.Votes br) = (okv, errv)"
    by (cases "Verify V v0 (res.Header br) (res.Votes br)")
  obtain ue v2 where up: "Update V v0 (res.Header br) (res.NextValidators br) = (ue, v2)"
    by (cases "Update V v0 (res.Header br) (res.NextValidators br)")
  from assms(3) obtain bh where bh: "res.Header br = Some bh"
      "res.NextValidators br = [] \<or> entry_sound L (NextValidatorsHash bh) (res.NextValidators br)"
    by (auto simp: vals_ok_def)
  from Update_sound [OF assms(1) s0 bh up] have v2: "cache_sound L v2" .
  from Some s0 v2 vf up show ?thesis
    by (cases ue) (auto simp: drain_body_def reconnect_def deliver_block_vr)
qed

lemma on_notification_vals:
  "\<forall>br\<in>set (brch s). vals_ok L br \<Longrightarrow> \<forall>br\<in>set (held (on_notification L r nodes s)). vals_ok L br"
  by (rule on_notification_held) (auto intro: fetch_task_vals)

lemma step_sound:
  assumes "Update_as_spec V" and "\<forall>v. vr (state_of c) = Some v \<longrightarrow> cache_sound L v"
    and "\<forall>br\<in>set (held c). vals_ok L br"
  shows "\<forall>v. vr (state_of (step L V r a c)) = Some v \<longrightarrow> cache_sound L v"
proof (cases c)
  case (Running p s)
  with assms(2) have s: "\<forall>v. vr s = Some v \<longrightarrow> cache_sound L v" by simp
  show ?thesis
  proof (cases p)
    case AtSelect
    from on_reconnect_sound [OF assms(1) s]
    have rc: "\<forall>v. vr (state_of (on_reconnect L V r ns s)) = Some v \<longrightarrow> cache_sound L v" for ns .
    from Running AtSelect s rc show ?thesis
      by (cases a) (auto simp: on_notification_vr split: list.splits)
  next
    case (InDrain br)
    with Running assms(3) have "vals_ok L br" by simp
    from drain_body_sound [OF assms(1) s this]
    have d: "\<forall>v. vr (state_of (drain_body V s br)) = Some v \<longrightarrow> cache_sound L v" .
    from Running InDrain s d show ?thesis
      by (cases a) (auto split: list.splits)
  qed
qed (use assms(2) in auto)

lemma run_sound:
  assumes "Update_as_spec V"
  shows "\<forall>v. vr (state_of c) = Some v \<longrightarrow> cache_sound L v \<Longrightarrow> \<forall>br\<in>set (held c). vals_ok L br \<Longrightarrow>
         \<forall>v. vr (state_of (run L V r acts c)) = Some v \<longrightarrow> cache_sound L v"
proof (induction acts arbitrary: c)
  case Nil
  then show ?case by simp
next
  case (Cons a acts)
  from step_sound [OF assms Cons.prems]
  have 1: "\<forall>v. vr (state_of (step L V r a c)) = Some v \<longrightarrow> cache_sound L v" .
  from step_held [OF Cons.prems(2), of L r V a] on_notification_vals
  have 2: "\<forall>br\<in>set (held (step L V r a c)). vals_ok L br" by blast
  from Cons.IH [OF 1 2] show ?case by simp
qed

lemma receiveLoop_start_sound:
  "(\<forall>v. vr (state_of (receiveLoop_start L V r n startHeight startSeq)) = Some v \<longrightarrow> cache_sound L v)
   \<and> held (receiveLoop_start L V r n startHeight startSeq) = []"
  by (auto simp: receiveLoop_start_def reconnect_def Let_def dest: newVerifer_cache
           split: option.splits sum.splits)

text \<open>
  Claim C7. \<open>getValidatorsByHash\<close> returns validators only when the SHA3-256 of the data
  that \<open>GetDataByHash\<close> returned is the hash asked for, the validators being that data
  decoded, and returns the error \<open>invalid data\<close> when it is not. So the cache that
  \<open>newVerifer\<close> builds is sound; and a sound cache stays sound when \<open>Update\<close>, as the
  specification describes it, is given the header and the next validators of a result
  of a fetch task of \<open>receiveLoop\<close> or of \<open>syncVerifier\<close>: these are empty or come from
  \<open>getValidatorsByHash\<close> at that header's \<open>NextValidatorsHash\<close>. Hence, with an
  \<open>Update\<close> that does what the specification describes, the cache of the verifier is
  sound in every configuration of every run of \<open>receiveLoop\<close>.
\<close>

theorem C7_validators_hash_checked:
  "(getValidatorsByHash L n h = Inr vs \<longrightarrow>
      (\<exists>data. GetDataByHash n (NewHexBytes L h) = Inr data \<and> SHA3Sum256 L data = h
             \<and> Unmarshal_Validators L data = Inr vs))
   \<and> (GetDataByHash n (NewHexBytes L h) = Inr data \<and> SHA3Sum256 L data \<noteq> h \<longrightarrow>
        getValidatorsByHash L n h = Inl (Error ''invalid data''))
   \<and> (newVerifer L n V vo = Inr v \<longrightarrow> cache_sound L v)
   \<and> (cache_sound L v0 \<and> fetch_task L n (Some v0) f q = Done (None, r) \<and> res.Header r = Some header \<longrightarrow>
        cache_sound L (Update_spec v0 (res.Height r) header (res.NextValidators r)))
   \<and> (cache_sound L v0 \<and> sync_task L n v0 ht = ((None, sr), calls) \<and> sync_res.Header sr = Some header \<longrightarrow>
        cache_sound L (Update_spec v0 (sync_res.Height sr) header (sync_res.NextValidators sr)))
   \<and> (Update_as_spec V \<longrightarrow>
        (\<forall>w. vr (state_of (run L V rcv acts (receiveLoop_start L V rcv n startHeight startSeq))) = Some w
               \<longrightarrow> cache_sound L w))"
proof (intro conjI impI)
  assume "getValidatorsByHash L n h = Inr vs"
  then show "\<exists>data. GetDataByHash n (NewHexBytes L h) = Inr data \<and> SHA3Sum256 L data = h
             \<and> Unmarshal_Validators L data = Inr vs"
    by (rule getValidatorsByHash_sound)
next
  assume "GetDataByHash n (NewHexBytes L h) = Inr data \<and> SHA3Sum256 L data \<noteq> h"
  then show "getValidatorsByHash L n h = Inl (Error ''invalid data'')"
    by (simp add: getValidatorsByHash_mismatch)
next
  assume "newVerifer L n V vo = Inr v"
  then show "cache_sound L v" by (rule newVerifer_cache)
next
  assume a: "cache_sound L v0 \<and> fetch_task L n (Some v0) f q = Done (None, r) \<and> res.Header r = Some header"
  with fetch_task_validators [of L n v0 f q r]
  have "res.NextValidators r = [] \<or> entry_sound L (NextValidatorsHash header) (res.NextValidators r)"
    by (auto dest: getValidatorsByHash_entry)
  with a show "cache_sound L (Update_spec v0 (res.Height r) header (res.NextValidators r))"
    by (simp add: Update_spec_cache)
next
  assume a: "cache_sound L v0 \<and> sync_task L n v0 ht = ((None, sr), calls) \<and> sync_res.Header sr = Some header"
  with sync_task_validators [of L n v0 ht sr calls]
  have "sync_res.NextValidators sr = [] \<or> entry_sound L (NextValidatorsHash header) (sync_res.NextValidators sr)"
    by (auto dest: getValidatorsByHash_entry)
  with a show "cache_sound L (Update_spec v0 (sync_res.Height sr) header (sync_res.NextValidators sr))"
    by (simp add: Update_spec_cache)
next
  assume u: "Update_as_spec V"
  from receiveLoop_start_sound [of L V rcv n startHeight startSeq]
  have "\<forall>w. vr (state_of (receiveLoop_start L V rcv n startHeight startSeq)) = Some w \<longrightarrow> cache_sound L w"
    and "\<forall>br\<in>set (held (receiveLoop_start L V rcv n startHeight startSeq)). vals_ok L br"
    by simp_all
  then show "\<forall>w. vr (state_of (run L V rcv acts (receiveLoop_start L V rcv n startHeight startSeq))) = Some w
               \<longrightarrow> cache_sound L w"
    by (rule run_sound [OF u])
qed

text \<open>
  The theorem on the example chain: the validators of the hash \<open>[7]\<close>, a node that
  answers the hash \<open>[6]\<close> with data of another hash, the verifier that \<open>newVerifer\<close>
  builds, and a fetch task that brings the validators that an empty cache lacks; and the
  run \<open>verifying_run\<close>, after which the cache holds the validators of the hashes
  \<open>[7]\<close> and \<open>[6]\<close>.
\<close>

theorem C7_validators_hash_checked_witness:
  "getValidatorsByHash example_lib example_node [7] = Inr [[7]]
   \<and> GetDataByHash example_node (NewHexBytes example_lib [7]) = Inr [7]
   \<and> SHA3Sum256 example_lib [7] = [7]
   \<and> Unmarshal_Validators example_lib [7] = Inr [[7]]
   \<and> SHA3Sum256 example_lib [7] \<noteq> [6]
   \<and> GetDataByHash (example_node\<lparr>GetDataByHash := (\<lambda>h. Inr [7])\<rparr>) (NewHexBytes example_lib [6]) = Inr [7]
   \<and> getValidatorsByHash example_lib (example_node\<lparr>GetDataByHash := (\<lambda>h. Inr [7])\<rparr>) [6]
       = Inl (Error ''invalid data'')
   \<and> newVerifer example_lib example_node example_vops \<lparr>BlockHeight = 100, ValidatorsHash = [7]\<rparr>
       = Inr \<lparr>Verifier.next = 100, nextValidatorsHash = [7], validators = [[7] \<mapsto> [[7]]]\<rparr>
   \<and> cache_sound example_lib
        \<lparr>Verifier.next = 100, nextValidatorsHash = [7], validators = [[7] \<mapsto> [[7]]]\<rparr>
   \<and> cache_sound example_lib (example_verifier\<lparr>validators := Map.empty\<rparr>)
   \<and> fetch_task example_lib example_node (Some (example_verifier\<lparr>validators := Map.empty\<rparr>))
        example_filter \<lparr>height = 100, hash = [], indexes = [], events = [], retry = 5\<rparr>
       = Done (None, (example_block 100)\<lparr>res.NextValidators := [[7]]\<rparr>)
   \<and> cache_sound example_lib
        (Update_spec (example_verifier\<lparr>validators := Map.empty\<rparr>) 100
           \<lparr>NextValidatorsHash = [7], Result = [7], serialized = [7]\<rparr> [[7]])
   \<and> sync_task example_lib example_node (example_verifier\<lparr>validators := Map.empty\<rparr>) 100
       = ((None, \<lparr>sync_res.Height = 100,
                  sync_res.Header = Some \<lparr>NextValidatorsHash = [7], Result = [7], serialized = [7]\<rparr>,
                  sync_res.Votes = [8], sync_res.NextValidators = [[7]]\<rparr>),
          [Call_GetBlockHeaderByHeight 100, Call_GetVotesByHeight 100, Call_GetDataByHash [7]])
   \<and> cache_sound example_lib
        (Update_spec (example_verifier\<lparr>validators := Map.empty\<rparr>) 100
           \<lparr>NextValidatorsHash = [7], Result = [7], serialized = [7]\<rparr> [[7]])
   \<and> Update_as_spec spec_vops
   \<and> map_option (\<lambda>w. (Verifier.next w, validators w [6], validators w [7]))
        (vr (state_of (run example_lib spec_vops verifying_receiver verifying_run
               (receiveLoop_start example_lib spec_vops verifying_receiver example_node 100 1))))
       = Some (101, Some [[6]], Some [[7]])
   \<and> cache_sound example_lib
        (the (vr (state_of (run example_lib spec_vops verifying_receiver verifying_run
               (receiveLoop_start example_lib spec_vops verifying_receiver example_node 100 1)))))"
proof -
  let ?w = "example_verifier\<lparr>validators := Map.empty\<rparr>"
  let ?hd = "\<lparr>NextValidatorsHash = [7], Result = [7], serialized = [7 :: 8 word]\<rparr>"
  let ?n6 = "example_node\<lparr>GetDataByHash := (\<lambda>h. Inr [7])\<rparr>"
  let ?vo = "\<lparr>BlockHeight = 100, ValidatorsHash = [7]\<rparr>"
  let ?v = "\<lparr>Verifier.next = 100, nextValidatorsHash = [7], validators = [[7] \<mapsto> [[7]]]\<rparr>"
  let ?q = "\<lparr>height = 100, hash = [], indexes = [], events = [], retry = 5\<rparr>"
  let ?r = "(example_block 100)\<lparr>res.NextValidators := [[7]]\<rparr>"
  have g: "getValidatorsByHash example_lib example_node [7] = Inr [[7]]"
    by (simp add: getValidatorsByHash_def example_lib_def example_node_def)
  have d1: "GetDataByHash example_node (NewHexBytes example_lib [7]) = Inr [7]"
       "SHA3Sum256 example_lib [7] = [7]" "Unmarshal_Validators example_lib [7] = Inr [[7]]"
    by (simp_all add: example_lib_def example_node_def)
  have m: "GetDataByHash ?n6 (NewHexBytes example_lib [6]) = Inr [7] \<and> SHA3Sum256 example_lib [7] \<noteq> [6]"
    by (simp add: example_lib_def)
  have hb: "getBlockHeaderByHeight example_lib example_node 100 = Inr ?hd"
    by (simp add: getBlockHeaderByHeight_def example_lib_def example_node_def)
  have vt: "GetVotesByHeight example_node 100 = Inr [8]"
    by (simp add: example_node_def)
  have vf: "\<And>v h b. Verify example_vops v h b = (True, None)"
    by (simp add: example_vops_def)
  have hv: "HexBytes_Value example_lib [] = ([], None)"
    by (simp add: example_lib_def)
  have nv: "newVerifer example_lib example_node example_vops ?vo = Inr ?v"
    by (simp add: newVerifer_def g hb vt vf)
  have c0: "cache_sound example_lib ?w" by (simp add: cache_sound_def)
  have ft: "fetch_task example_lib example_node (Some ?w) example_filter ?q = Done (None, ?r)"
    by (simp add: fetch_task_def fetch_votes_def g hb vt hv Validators_def example_block_def
          example_verifier_def)
  have st: "sync_task example_lib example_node ?w 100
       = ((None, \<lparr>sync_res.Height = 100, sync_res.Header = Some ?hd,
                  sync_res.Votes = [8], sync_res.NextValidators = [[7]]\<rparr>),
          [Call_GetBlockHeaderByHeight 100, Call_GetVotesByHeight 100, Call_GetDataByHash [7]])"
    by (simp add: sync_task_def g hb vt Validators_def example_verifier_def)
  note T = C7_validators_hash_checked [of example_lib ?n6 "[6]" _ "[7]"]
  from T m have mm: "getValidatorsByHash example_lib ?n6 [6] = Inl (Error ''invalid data'')"
    by blast
  note U = C7_validators_hash_checked
      [of example_lib example_node "[7]" "[[7]]" _ example_vops ?vo ?v ?w example_filter ?q ?r ?hd]
  from U nv have cs: "cache_sound example_lib ?v" by blast
  have hdr: "res.Header ?r = Some ?hd" by (simp add: example_block_def)
  from U c0 ft hdr
  have "cache_sound example_lib (Update_spec ?w (res.Height ?r) ?hd (res.NextValidators ?r))"
    by blast
  then have up: "cache_sound example_lib (Update_spec ?w 100 ?hd [[7]])"
    by (simp add: example_block_def)
  have shd: "sync_res.Header \<lparr>sync_res.Height = 100, sync_res.Header = Some ?hd,
                  sync_res.Votes = [8], sync_res.NextValidators = [[7]]\<rparr> = Some ?hd"
    by simp
  note U2 = C7_validators_hash_checked
      [of example_lib example_node _ _ _ _ _ _ ?w _ _ _ ?hd 100
          "\<lparr>sync_res.Height = 100, sync_res.Header = Some ?hd,
            sync_res.Votes = [8], sync_res.NextValidators = [[7]]\<rparr>"
          "[Call_GetBlockHeaderByHeight 100, Call_GetVotesByHeight 100, Call_GetDataByHash [7]]"]
  from U2 c0 st shd
  have "cache_sound example_lib
          (Update_spec ?w
             (sync_res.Height \<lparr>sync_res.Height = 100, sync_res.Header = Some ?hd,
                  sync_res.Votes = [8], sync_res.NextValidators = [[7]]\<rparr>) ?hd
             (sync_res.NextValidators \<lparr>sync_res.Height = 100, sync_res.Header = Some ?hd,
                  sync_res.Votes = [8], sync_res.NextValidators = [[7]]\<rparr>))"
    by blast
  then have up2: "cache_sound example_lib (Update_spec ?w 100 ?hd [[7]])" by simp
  define fin where
    "fin = vr (state_of (run example_lib spec_vops verifying_receiver verifying_run
               (receiveLoop_start example_lib spec_vops verifying_receiver example_node 100 1)))"
  have us: "Update_as_spec spec_vops"
    unfolding Update_as_spec_def
  proof (intro allI)
    fix v header nvs
    show "(\<exists>e. Update spec_vops v header nvs = (Some e, v))
        \<or> (\<exists>ht bh. header = Some bh \<and> Update spec_vops v header nvs = (None, Update_spec v ht bh nvs))"
      by (cases header) (auto simp: spec_vops_def)
  qed
  have ob: "map_option (\<lambda>w. (Verifier.next w, validators w [6], validators w [7])) fin
              = Some (101, Some [[6]], Some [[7]])"
    unfolding fin_def by code_simp
  then obtain w where w: "fin = Some w" by (cases fin) auto
  note R = C7_validators_hash_checked
      [of example_lib example_node _ _ _ spec_vops _ _ _ _ _ _ _ _ _ _ verifying_receiver verifying_run 100 1,
       folded fin_def]
  from R us w have "cache_sound example_lib w" by blast
  with w have cw: "cache_sound example_lib (the fin)" by simp
  from g d1 m mm nv cs c0 ft up st have part: "getValidatorsByHash example_lib example_node [7] = Inr [[7]]
   \<and> GetDataByHash example_node (NewHexBytes example_lib [7]) = Inr [7]
   \<and> SHA3Sum256 example_lib [7] = [7]
   \<and> Unmarshal_Validators example_lib [7] = Inr [[7]]
   \<and> SHA3Sum256 example_lib [7] \<noteq> [6]
   \<and> GetDataByHash ?n6 (NewHexBytes example_lib [6]) = Inr [7]
   \<and> getValidatorsByHash example_lib ?n6 [6] = Inl (Error ''invalid data'')
   \<and> newVerifer example_lib example_node example_vops ?vo = Inr ?v
   \<and> cache_sound example_lib ?v
   \<and> cache_sound example_lib ?w
   \<and> fetch_task example_lib example_node (Some ?w) example_filter ?q = Done (None, ?r)
   \<and> cache_sound example_lib (Update_spec ?w 100 ?hd [[7]])
   \<and> sync_task example_lib example_node ?w 100
       = ((None, \<lparr>sync_res.Height = 100, sync_res.Header = Some ?hd,
                  sync_res.Votes = [8], sync_res.NextValidators = [[7]]\<rparr>),
          [Call_GetBlockHeaderByHeight 100, Call_GetVotesByHeight 100, Call_GetDataByHash [7]])"
    by blast
  from part up2 us ob cw show ?thesis unfolding fin_def by blast
qed

end
